theory Spec2Isabelle
  imports Complex_Main "HOL-Library.Monad_Syntax"
begin

section \<open>Strings of the script\<close>

text \<open>
  A JavaScript string is modelled as a \<open>string\<close>: each \<open>char\<close> stands for one UTF-16 code
  unit below 256.  The character classes are those of the regular expressions of the script:
  \<open>\s\<close> (which is also what \<open>String.prototype.trim\<close> removes), \<open>[A-Z]\<close> and \<open>\d\<close>.
\<close>

definition is_ws :: "char \<Rightarrow> bool" where
  "is_ws c = ((of_char c :: nat) \<in> {9, 10, 11, 12, 13, 32, 160})"

definition is_upper :: "char \<Rightarrow> bool" where
  "is_upper c = (65 \<le> (of_char c :: nat) \<and> (of_char c :: nat) \<le> 90)"

definition is_digit :: "char \<Rightarrow> bool" where
  "is_digit c = (48 \<le> (of_char c :: nat) \<and> (of_char c :: nat) \<le> 57)"

definition trim :: "string \<Rightarrow> string" where
  "trim s = rev (dropWhile is_ws (rev (dropWhile is_ws s)))"

text \<open>
  \<open>/^[A-Z](?:\s*[A-Z])*$/.test(x)\<close>.  After the first letter the expression is read by a
  two-state automaton: the flag says that white space has been read since the last letter,
  so that a letter must still come.
\<close>

fun letters_rest :: "bool \<Rightarrow> string \<Rightarrow> bool" where
  "letters_rest pending [] = (\<not> pending)"
| "letters_rest pending (c # cs) =
     (if is_upper c then letters_rest False cs
      else if is_ws c then letters_rest True cs
      else False)"

definition test_letters :: "string \<Rightarrow> bool" where
  "test_letters x = (case x of [] \<Rightarrow> False | c # cs \<Rightarrow> is_upper c \<and> letters_rest False cs)"

text \<open>\<open>x.replace(/\s+/g, '')\<close>\<close>

definition remove_ws :: "string \<Rightarrow> string" where
  "remove_ws x = filter (\<lambda>c. \<not> is_ws c) x"

text \<open>\<open>x.split('\n')\<close>: the empty string gives one empty line.\<close>

fun split_nl :: "string \<Rightarrow> string list" where
  "split_nl [] = [[]]"
| "split_nl (c # cs) =
     (if c = CHR 0x0A then [] # split_nl cs
      else (case split_nl cs of [] \<Rightarrow> [[c]] | l # ls \<Rightarrow> (c # l) # ls))"

text \<open>
  \<open>line.replace(/^\d+\.?\)?\s*/, '')\<close>: one or more digits, then an optional dot, an optional
  closing parenthesis and any white space.  Every part after the digits is optional and
  greedy, so no backtracking takes place.
\<close>

definition drop_opt :: "char \<Rightarrow> string \<Rightarrow> string" where
  "drop_opt k r = (case r of [] \<Rightarrow> [] | c # cs \<Rightarrow> if c = k then cs else r)"

definition strip_ordinal :: "string \<Rightarrow> string" where
  "strip_ordinal l =
     (if takeWhile is_digit l = [] then l
      else dropWhile is_ws (drop_opt (CHR '')'') (drop_opt (CHR ''.'') (dropWhile is_digit l))))"

text \<open>
  \<open>answers.split('\n').map(line => line.replace(/^\d+\.?\)?\s*/, '').trim()).filter(Boolean)\<close>
\<close>

definition answer_lines :: "string \<Rightarrow> string list" where
  "answer_lines a = filter (\<lambda>l. l \<noteq> []) (map (\<lambda>line. trim (strip_ordinal line)) (split_nl a))"

text \<open>
  \<open>content.match(/(\d+)-\d+/)\<close>: the leftmost place where a run of digits is followed by a
  dash and a digit; the result is group 1, the run of digits before the dash.
\<close>

fun unit_id_match :: "string \<Rightarrow> string option" where
  "unit_id_match [] = None"
| "unit_id_match (c # cs) =
     (if takeWhile is_digit (c # cs) \<noteq> [] \<and>
         (case dropWhile is_digit (c # cs) of
            d # e # _ \<Rightarrow> d = CHR ''-'' \<and> is_digit e
          | _ \<Rightarrow> False)
      then Some (takeWhile is_digit (c # cs))
      else unit_id_match cs)"

text \<open>\<open>s.includes(sub)\<close>\<close>

fun starts_with :: "string \<Rightarrow> string \<Rightarrow> bool" where
  "starts_with s [] = True"
| "starts_with [] (k # ks) = False"
| "starts_with (c # cs) (k # ks) = (c = k \<and> starts_with cs ks)"

fun includes_str :: "string \<Rightarrow> string \<Rightarrow> bool" where
  "includes_str [] sub = (sub = [])"
| "includes_str (c # cs) sub = (starts_with (c # cs) sub \<or> includes_str cs sub)"

section \<open>Course structure and answer bank\<close>

datatype task_method = Video | Skip | Vocabulary | Quiz | Other_method string

record child =
  c_name :: string
  c_method :: task_method
  c_needsSubmit :: bool

text \<open>
  A task-map entry: \<open>type: 'standalone'\<close> with its \<open>method\<close> and \<open>needsSubmit\<close> (absent
  in the table, hence false), or \<open>type: 'composite'\<close> with its \<open>children\<close>.
\<close>

datatype task_kind = Standalone task_method bool | Composite "child list"

record task =
  t_id :: string
  t_name :: string
  t_kind :: task_kind

definition mk_child :: "string \<Rightarrow> task_method \<Rightarrow> bool \<Rightarrow> child" where
  "mk_child n m b = \<lparr>c_name = n, c_method = m, c_needsSubmit = b\<rparr>"

definition mk_task :: "string \<Rightarrow> string \<Rightarrow> task_kind \<Rightarrow> task" where
  "mk_task i n k = \<lparr>t_id = i, t_name = n, t_kind = k\<rparr>"

text \<open>\<open>COURSE_DATA.UNIT_STRUCTURE\<close>, as the script declares it.\<close>

definition UNIT_STRUCTURE :: "task list" where
  "UNIT_STRUCTURE =
    [mk_task ''1-1'' ''Setting the scene'' (Standalone Video False),
     mk_task ''1-2'' ''iExplore 1: Learning before class'' (Composite
       [mk_child ''Reading in detail'' Skip False,
        mk_child ''Vocabulary'' Vocabulary False,
        mk_child ''Reading comprehension'' Quiz True,
        mk_child ''Dealing with vocabulary'' Quiz True]),
     mk_task ''1-3'' ''iExplore 1: Reviewing after class'' (Composite
       [mk_child ''Gems of the language'' Video False,
        mk_child ''Repeating after me'' Skip False,
        mk_child ''Application'' Quiz True]),
     mk_task ''1-4'' ''iExplore 2: Learning before class'' (Composite
       [mk_child ''Reading in detail'' Skip False,
        mk_child ''Vocabulary'' Vocabulary False,
        mk_child ''Reading comprehension'' Quiz True,
        mk_child ''Dealing with vocabulary'' Quiz True]),
     mk_task ''1-5'' ''iExplore 2: Reviewing after class'' (Composite
       [mk_child ''Repeating after me'' Skip False]),
     mk_task ''1-6'' ''Unit project'' (Standalone Skip False),
     mk_task ''1-7'' ''Unit test'' (Composite
       [mk_child ''Part I'' Quiz True,
        mk_child ''Part II'' Quiz True,
        mk_child ''Part III'' Quiz True])]"

text \<open>
  An answer payload of the bank: a string, or another JSON value (\<open>AOther\<close>, a truthy value
  that is not a string, such as an array).  The bank is the parsed JSON object
  unit \<open>\<rightarrow>\<close> main task \<open>\<rightarrow>\<close> sub-task \<open>\<rightarrow>\<close> payload, as association lists without
  repeated keys.
\<close>

datatype answer = AString string | AOther

type_synonym bank = "(string \<times> (string \<times> (string \<times> answer) list) list) list"

section \<open>The page\<close>

text \<open>
  What the selectors of the script read from the document.  An element found by position in
  a node list is named by its index.
\<close>

record option_el =
  caption :: "string option"  \<comment> \<open>\<open>textContent\<close> of the \<open>.caption\<close> child, when there is one\<close>
  selected :: bool  \<comment> \<open>\<open>classList.contains('selected')\<close>\<close>

record tab_el =
  tab_title :: "string option"  \<comment> \<open>\<open>getAttribute('title')\<close>\<close>
  tab_text :: string  \<comment> \<open>\<open>textContent\<close>\<close>

record submit_btn =
  sb_visible :: bool  \<comment> \<open>\<open>offsetParent !== null\<close>\<close>
  sb_caption_ok :: bool  \<comment> \<open>the text matches the submit / continue / view captions\<close>

text \<open>
  What the promise of \<open>video.play()\<close> does: it resolves or rejects after so many
  milliseconds, or it stays pending.
\<close>

datatype play_outcome = Play_resolves nat | Play_rejects nat | Play_pending

record video_el =
  readyState :: nat
  duration :: "real option"
    \<comment> \<open>in seconds, taken exactly; \<open>None\<close> is \<open>NaN\<close> (no metadata).  A stream without end
       (\<open>Infinity\<close>) is not modelled\<close>
  muted :: bool
  currentTime :: real
  play_called :: bool
  canplay_after :: "nat option"
    \<comment> \<open>the \<open>canplay\<close> event: fired so many milliseconds after the listener is added, or never\<close>
  play_promise :: play_outcome

record page =
  href :: string  \<comment> \<open>\<open>location.href\<close>\<close>
  menu_title :: "string option option"
    \<comment> \<open>\<open>.pc-menu-activity .pc-menu-node-name\<close>: the \<open>title\<close> attribute of the element, when
       there is one\<close>
  node_name_text :: "string option"
    \<comment> \<open>\<open>.pc-menu-activity .pc-menu-node-name .node-name\<close>: its \<open>textContent\<close>\<close>
  active_tab :: "tab_el option"
    \<comment> \<open>the first element of \<open>.pc-header-tab-activity .pc-tab-view-container[title]\<close> or
       \<open>.pc-header-tab-activity .pc-tab-view-container > span\<close>\<close>
  test_part_name :: "string option"  \<comment> \<open>\<open>.question-common-abs-test-part-name\<close>\<close>
  choiceQuestions :: "option_el list list"
    \<comment> \<open>\<open>.question-common-abs-reply, .question-common-abs-banked-cloze\<close>, each with its
       \<open>.option\<close> elements\<close>
  textInputs :: "string list"  \<comment> \<open>the values of \<open>textarea.question-inputbox-input\<close>\<close>
  fillInBlanks :: "string list"  \<comment> \<open>the values of \<open>.fe-scoop .comp-abs-input input\<close>\<close>
  video :: "video_el option"
  vocabulary_wrapper :: bool  \<comment> \<open>\<open>.vocabulary-wrapper\<close> exists\<close>
  voc_next :: bool  \<comment> \<open>\<open>.vocActions .next:not(.swiper-button-disabled)\<close> exists\<close>
  header_tabs :: "string option list"
    \<comment> \<open>the \<open>title\<close> attributes of \<open>.pc-header-tabs-container .pc-tab-view-container\<close>\<close>
  next_question_disabled :: "bool option"
    \<comment> \<open>the first \<open>button.ant-btn-primary\<close> with the next-question caption: its
       \<open>disabled\<close>\<close>
  course_page_btn :: "submit_btn option"  \<comment> \<open>\<open>.question-common-course-page .btn\<close>\<close>
  primary_lg_btn :: "submit_btn option"  \<comment> \<open>\<open>.ant-btn-primary.ant-btn-lg\<close>\<close>
  primary_enabled_btn :: "submit_btn option"  \<comment> \<open>\<open>button.ant-btn-primary:not([disabled])\<close>\<close>
  confirm_btn :: bool  \<comment> \<open>\<open>.ant-modal-confirm-btns .ant-btn-primary\<close> exists\<close>
  menu_items :: "string option list"
    \<comment> \<open>\<open>.pc-slider-menu-micro\<close>: the title of the \<open>.pc-menu-node-name\<close> of each\<close>
  menu_current :: "nat option"
    \<comment> \<open>the position of the \<open>.pc-menu-activity\<close> element among them (\<open>indexOf\<close>)\<close>

section \<open>Run state, effects and the environment\<close>

datatype level = Info | Success | Error | Warn

text \<open>The log lines of the script, by what they report.\<close>

datatype msg =
    Msg_started | Msg_paused | Msg_observer_started | Msg_observer_stopped | Msg_page_jump
  | Msg_bank_loaded
  | Msg_no_main_task | Msg_no_unit_id string | Msg_no_answer string string string
  | Msg_answer_found string
  | Msg_bank_empty | Msg_bank_failed | Msg_applied string
  | Msg_video | Msg_play_failed | Msg_video_done
  | Msg_skip string
  | Msg_vocabulary | Msg_cards_done | Msg_click_limit
  | Msg_stuck string | Msg_start string | Msg_unmapped string | Msg_tab_missing string
  | Msg_subtask string task_method | Msg_all_parts string | Msg_fatal
  | Msg_unknown_method task_method
  | Msg_next_question | Msg_submit | Msg_confirm
  | Msg_navigating | Msg_no_current | Msg_next_task "string option" | Msg_all_done

datatype target =
    Option_el nat nat  \<comment> \<open>question block, option\<close>
  | Voc_next
  | Tab nat
  | Next_question
  | Submit nat  \<comment> \<open>the selector that found the button\<close>
  | Confirm
  | Menu_item nat

datatype input_kind = TextInput | FillInBlank

datatype proc =
    P_executeMethod task_method string
  | P_completeAndNavigateTaskInternal
  | P_navigateToNextMainTask

text \<open>
  The effects of a run, in order.  \<open>Sleep lo hi\<close> is a wait of at least \<open>lo\<close> and less than
  \<open>hi\<close> milliseconds (\<open>hi = lo\<close>: exactly \<open>lo\<close>); \<open>Awaited t\<close> is the time the promise of the
  video handler took; \<open>Call\<close> records that a procedure was entered.
\<close>

datatype event =
    Log level msg
  | Click target
  | Sleep nat nat
  | Awaited nat
  | Set_value input_kind nat string
  | Input_event input_kind nat
  | Set_timeout_main nat
  | Call "proc"

text \<open>
  What can happen while the script waits: nothing, the user presses the start/stop button,
  the host page renders (in answer to a click, or by itself), the remote bank arrives.
  The script is single-threaded, and each of its clicks and writes is followed at once by a
  wait (or by the end of \<open>main\<close>), so that whatever the page does in answer is placed at
  that wait.  A timer that calls \<open>main\<close> again is recorded in the trace and not run: the
  model follows one invocation.
\<close>

datatype env_action = Env_idle | Env_toggle | Env_render page | Env_bank bank

record state =
  isAutomationRunning :: bool
  isProcessing :: bool
  urlObserver :: "string option"
    \<comment> \<open>\<open>null\<close>, or the observer with the \<open>lastUrl\<close> of its callback\<close>
  lastAnsweredSubTask :: string
  gm_lastProcessedTaskName :: "string option"  \<comment> \<open>the persisted values\<close>
  gm_lastUrl :: "string option"
  QUESTION_BANK :: bank
  page :: page
  trace :: "event list"
  env :: "env_action list"  \<comment> \<open>what will happen at the coming waits, one action each\<close>

definition emit :: "event \<Rightarrow> state \<Rightarrow> state" where
  "emit e s = s\<lparr>trace := trace s @ [e]\<rparr>"

definition log_js :: "level \<Rightarrow> msg \<Rightarrow> state \<Rightarrow> state" where
  "log_js l m s = emit (Log l m) s"

definition robustClick :: "target \<Rightarrow> state \<Rightarrow> state" where
  "robustClick t s = emit (Click t) s"

definition startObserver :: "state \<Rightarrow> state" where
  "startObserver s =
     (if urlObserver s \<noteq> None then s
      else log_js Info Msg_observer_started (s\<lparr>urlObserver := Some (href (page s))\<rparr>))"

definition stopObserver :: "state \<Rightarrow> state" where
  "stopObserver s = log_js Warn Msg_observer_stopped (s\<lparr>urlObserver := None\<rparr>)"

definition toggleAutomation :: "state \<Rightarrow> state" where
  "toggleAutomation s =
     (let s1 = s\<lparr>isAutomationRunning := \<not> isAutomationRunning s\<rparr> in
      if isAutomationRunning s1 then
        emit (Set_timeout_main 1500)
          (startObserver
            ((log_js Success Msg_started s1)
               \<lparr>gm_lastProcessedTaskName := None, lastAnsweredSubTask := []\<rparr>))
      else stopObserver ((log_js Warn Msg_paused s1)\<lparr>isProcessing := False\<rparr>))"

text \<open>The callback of the mutation observer, run when the page has rendered.\<close>

definition observerCallback :: "state \<Rightarrow> state" where
  "observerCallback s =
     (case urlObserver s of
        None \<Rightarrow> s
      | Some lastUrl \<Rightarrow>
          if href (page s) \<noteq> lastUrl then
            (let s1 = log_js Info Msg_page_jump (s\<lparr>urlObserver := Some (href (page s))\<rparr>) in
             if \<not> isProcessing s1 \<and> isAutomationRunning s1
             then emit (Set_timeout_main 1500) s1 else s1)
          else s)"

fun apply_env :: "env_action \<Rightarrow> state \<Rightarrow> state" where
  "apply_env Env_idle s = s"
| "apply_env Env_toggle s = toggleAutomation s"
| "apply_env (Env_render p) s = observerCallback (s\<lparr>page := p\<rparr>)"
| "apply_env (Env_bank b) s = log_js Success Msg_bank_loaded (s\<lparr>QUESTION_BANK := b\<rparr>)"

definition env_step :: "state \<Rightarrow> state" where
  "env_step s = (case env s of [] \<Rightarrow> s | a # as \<Rightarrow> apply_env a (s\<lparr>env := as\<rparr>))"

text \<open>\<open>await sleep(ms)\<close>: the wait, during which the environment acts.\<close>

definition sleep :: "nat \<Rightarrow> nat \<Rightarrow> state \<Rightarrow> state" where
  "sleep lo hi s = env_step (emit (Sleep lo hi) s)"

section \<open>The answering engine\<close>

text \<open>A JavaScript value used as a condition: \<open>null\<close>, \<open>undefined\<close> and \<open>''\<close> are falsy.\<close>

definition truthy :: "string option \<Rightarrow> bool" where
  "truthy v = (case v of None \<Rightarrow> False | Some x \<Rightarrow> x \<noteq> [])"

definition mainTaskContent_of :: "page \<Rightarrow> string option" where
  "mainTaskContent_of p = (case menu_title p of Some t \<Rightarrow> t | None \<Rightarrow> node_name_text p)"

text \<open>
  \<open>activeSubTaskName\<close> as lines 201 to 206 compute it: the title or the text of the active
  tab, else the trimmed text of the test-part name, else \<open>'Part I'\<close>.
\<close>

definition activeSubTaskName_of :: "page \<Rightarrow> string" where
  "activeSubTaskName_of p =
     (let n0 = (case active_tab p of
                  None \<Rightarrow> None
                | Some t \<Rightarrow> Some (if truthy (tab_title t) then the (tab_title t) else tab_text t));
          n1 = (if \<not> truthy n0 \<and> test_part_name p \<noteq> None
                then Some (trim (the (test_part_name p))) else n0)
      in if \<not> truthy n1 then ''Part I'' else the n1)"

definition dedup_key :: "string \<Rightarrow> string \<Rightarrow> string" where
  "dedup_key mainTaskContent activeSubTaskName = mainTaskContent @ ''-'' @ activeSubTaskName"

text \<open>
  \<open>COURSE_DATA.QUESTION_BANK[unitKey]?.[mainTaskKey]?.[activeSubTaskName]\<close>, for keys
  that are not names of members every JavaScript object inherits (such as \<open>constructor\<close>):
  for those the script finds the inherited member where the bank has no entry.
\<close>

definition bank_lookup :: "bank \<Rightarrow> string \<Rightarrow> string \<Rightarrow> string \<Rightarrow> answer option" where
  "bank_lookup b unitKey mainTaskKey activeSubTaskName =
     (case map_of b unitKey of
        None \<Rightarrow> None
      | Some u \<Rightarrow>
          (case map_of u mainTaskKey of
             None \<Rightarrow> None
           | Some t \<Rightarrow> map_of t activeSubTaskName))"

text \<open>\<open>!answers\<close>: no entry, or the empty string.\<close>

definition no_answers :: "answer option \<Rightarrow> bool" where
  "no_answers a = (a = None \<or> a = Some (AString []))"

text \<open>
  \<open>taskMapEntry ? taskMapEntry.name : mainTaskContent\<close>, with
  \<open>taskMapEntry = COURSE_DATA.UNIT_STRUCTURE.find(t => mainTaskContent.includes(t.id))\<close>
\<close>

definition mainTaskKey_of :: "string \<Rightarrow> string" where
  "mainTaskKey_of mainTaskContent =
     (case find (\<lambda>t. includes_str mainTaskContent (t_id t)) UNIT_STRUCTURE of
        Some taskMapEntry \<Rightarrow> t_name taskMapEntry
      | None \<Rightarrow> mainTaskContent)"

datatype page_context = Ctx_null | Ctx_answered | Ctx answer string string

definition getPageContextAndAnswers :: "state \<Rightarrow> page_context \<times> state" where
  "getPageContextAndAnswers s =
     (let mainTaskContent = mainTaskContent_of (page s) in
      if \<not> truthy mainTaskContent then (Ctx_null, log_js Error Msg_no_main_task s)
      else
        (case unit_id_match (the mainTaskContent) of
           None \<Rightarrow> (Ctx_null, log_js Error (Msg_no_unit_id (the mainTaskContent)) s)
         | Some unitId \<Rightarrow>
             (let unitKey = ''Unit '' @ unitId;
                  activeSubTaskName = activeSubTaskName_of (page s)
              in if lastAnsweredSubTask s = dedup_key (the mainTaskContent) activeSubTaskName
                 then (Ctx_answered, s)
                 else
                   (let mainTaskKey = mainTaskKey_of (the mainTaskContent);
                        answers = bank_lookup (QUESTION_BANK s) unitKey mainTaskKey
                                    activeSubTaskName
                    in if no_answers answers
                       then (Ctx_null,
                             log_js Warn (Msg_no_answer unitKey mainTaskKey activeSubTaskName) s)
                       else (Ctx (the answers) (the mainTaskContent) activeSubTaskName,
                             log_js Success (Msg_answer_found activeSubTaskName) s)))))"

text \<open>
  The node lists of \<open>doAnswer\<close> are taken once; an element is then read by its position in
  the page as it is at that moment.  A position the page no longer has stands for an element
  that shows nothing: a block without options, an input that is not written.
\<close>

definition block_at :: "page \<Rightarrow> nat \<Rightarrow> option_el list" where
  "block_at p i = (if i < length (choiceQuestions p) then choiceQuestions p ! i else [])"

definition inputs_of :: "input_kind \<Rightarrow> page \<Rightarrow> string list" where
  "inputs_of k p = (case k of TextInput \<Rightarrow> textInputs p | FillInBlank \<Rightarrow> fillInBlanks p)"

definition input_empty :: "input_kind \<Rightarrow> page \<Rightarrow> nat \<Rightarrow> bool" where
  "input_empty k p i = (i < length (inputs_of k p) \<and> inputs_of k p ! i = [])"

text \<open>
  What \<open>input.value\<close> reads after \<open>input.value = v\<close>.  A text area gives its value with
  the line breaks normalised: a carriage return, with or without a line feed after it, reads
  as one line feed.  The fill-in-blank inputs are taken to be text inputs, whose value is
  kept without line breaks.
\<close>

fun normalize_newlines :: "string \<Rightarrow> string" where
  "normalize_newlines (c # d # cs) =
     (if c = CHR 0x0D \<and> d = CHR 0x0A then CHR 0x0A # normalize_newlines cs
      else if c = CHR 0x0D then CHR 0x0A # normalize_newlines (d # cs)
      else c # normalize_newlines (d # cs))"
| "normalize_newlines [c] = [if c = CHR 0x0D then CHR 0x0A else c]"
| "normalize_newlines [] = []"

definition stored_value :: "input_kind \<Rightarrow> string \<Rightarrow> string" where
  "stored_value k v =
     (case k of
        TextInput \<Rightarrow> normalize_newlines v
      | FillInBlank \<Rightarrow> filter (\<lambda>c. c \<noteq> CHR 0x0D \<and> c \<noteq> CHR 0x0A) v)"

definition set_input :: "input_kind \<Rightarrow> nat \<Rightarrow> string \<Rightarrow> page \<Rightarrow> page" where
  "set_input k i v p =
     (case k of
        TextInput \<Rightarrow> p\<lparr>textInputs := (textInputs p)[i := stored_value TextInput v]\<rparr>
      | FillInBlank \<Rightarrow> p\<lparr>fillInBlanks := (fillInBlanks p)[i := stored_value FillInBlank v]\<rparr>)"

text \<open>
  The inner loop of the choice branch: the first option of the block whose trimmed caption
  is the letter and which is not selected.
\<close>

fun find_option :: "nat \<Rightarrow> char \<Rightarrow> option_el list \<Rightarrow> nat option" where
  "find_option j letter [] = None"
| "find_option j letter (opt # opts) =
     (if (case caption opt of None \<Rightarrow> False | Some c \<Rightarrow> trim c = [letter]) \<and> \<not> selected opt
      then Some j else find_option (Suc j) letter opts)"

function choice_loop :: "nat \<Rightarrow> nat \<Rightarrow> string \<Rightarrow> bool \<Rightarrow> state \<Rightarrow> bool \<times> state" where
  "choice_loop i n answerLetters answered s =
     (if i < n then
        (case find_option 0 (answerLetters ! i) (block_at (page s) i) of
           None \<Rightarrow> choice_loop (Suc i) n answerLetters answered s
         | Some j \<Rightarrow>
             choice_loop (Suc i) n answerLetters True
               (sleep 200 300 (robustClick (Option_el i j) s)))
      else (answered, s))"
  by pat_completeness auto
termination
  by (relation "measure (\<lambda>(i, n, l, a, s). n - i)") auto

declare choice_loop.simps [simp del]

function fill_loop :: "input_kind \<Rightarrow> nat \<Rightarrow> nat \<Rightarrow> string list \<Rightarrow> bool \<Rightarrow> state \<Rightarrow> bool \<times> state" where
  "fill_loop k i n answerLines answered s =
     (if i < n then
        (if input_empty k (page s) i then
           fill_loop k (Suc i) n answerLines True
             (sleep 200 200
               (emit (Input_event k i)
                 (emit (Set_value k i (answerLines ! i))
                   (s\<lparr>page := set_input k i (answerLines ! i) (page s)\<rparr>))))
         else fill_loop k (Suc i) n answerLines answered s)
      else (answered, s))"
  by pat_completeness auto
termination
  by (relation "measure (\<lambda>(k, i, n, l, a, s). n - i)") auto

declare fill_loop.simps [simp del]

text \<open>
  Lines 226 to 263 of \<open>doAnswer\<close>: the three node lists are taken, then one branch is chosen
  by the lists and the payload.  The result is the flag \<open>answered\<close>.
\<close>

definition apply_answers :: "answer \<Rightarrow> state \<Rightarrow> bool \<times> state" where
  "apply_answers answers s =
     (let nChoice = length (choiceQuestions (page s));
          nText = length (textInputs (page s));
          nBlank = length (fillInBlanks (page s))
      in case answers of
           AOther \<Rightarrow> (False, s)
         | AString a \<Rightarrow>
             if nChoice > 0 \<and> test_letters (trim a) then
               (let answerLetters = remove_ws (trim a) in
                choice_loop 0 (min nChoice (length answerLetters)) answerLetters False s)
             else if nText > 0 then
               (let answerLines = answer_lines a in
                fill_loop TextInput 0 (min nText (length answerLines)) answerLines False s)
             else if nBlank > 0 then
               (let answerLines = answer_lines a in
                fill_loop FillInBlank 0 (min nBlank (length answerLines)) answerLines False s)
             else (False, s))"

definition doAnswer :: "state \<Rightarrow> state" where
  "doAnswer s =
     (let s1 = (if QUESTION_BANK s = [] then sleep 3000 3000 (log_js Warn Msg_bank_empty s)
                else s)
      in if QUESTION_BANK s1 = [] then log_js Error Msg_bank_failed s1
         else
           (case getPageContextAndAnswers s1 of
              (Ctx_null, s2) \<Rightarrow> s2
            | (Ctx_answered, s2) \<Rightarrow> s2
            | (Ctx answers mainTaskContent activeSubTaskName, s2) \<Rightarrow>
                (case apply_answers answers s2 of
                   (answered, s3) \<Rightarrow>
                     if answered then
                       (log_js Success (Msg_applied activeSubTaskName) s3)
                         \<lparr>lastAnsweredSubTask := dedup_key mainTaskContent activeSubTaskName\<rparr>
                     else s3)))"

section \<open>Task handlers\<close>

text \<open>\<open>video.duration > 2 ? video.duration - 1.5 : 0\<close>; a comparison with \<open>NaN\<close> is false.\<close>

definition seek_time :: "real option \<Rightarrow> real" where
  "seek_time d = (case d of None \<Rightarrow> 0 | Some x \<Rightarrow> if x > 2 then x - 3 / 2 else 0)"

text \<open>\<open>onCanPlay\<close> up to its call of \<open>video.play()\<close>.\<close>

definition onCanPlay_start :: "video_el \<Rightarrow> video_el" where
  "onCanPlay_start v = v\<lparr>currentTime := seek_time (duration v), play_called := True\<rparr>"

text \<open>\<open>onCanPlay\<close> once the promise of \<open>video.play()\<close> has settled.\<close>

definition onCanPlay_finish :: "bool \<Rightarrow> state \<Rightarrow> state" where
  "onCanPlay_finish rejected s =
     log_js Success Msg_video_done (if rejected then log_js Warn Msg_play_failed s else s)"

definition set_video :: "video_el \<Rightarrow> state \<Rightarrow> state" where
  "set_video v s = s\<lparr>page := (page s)\<lparr>video := Some v\<rparr>\<rparr>"

text \<open>The caller waits \<open>t\<close> milliseconds for the promise of the video handler.\<close>

definition awaited :: "nat \<Rightarrow> state \<Rightarrow> state" where
  "awaited t s = env_step (emit (Awaited t) s)"

text \<open>
  When, and by whom, the promise of \<open>play()\<close> is settled: \<open>Some (t, rejected)\<close>, or \<open>None\<close>
  when it stays pending.
\<close>

definition play_settles :: "play_outcome \<Rightarrow> (nat \<times> bool) option" where
  "play_settles po =
     (case po of
        Play_resolves t \<Rightarrow> Some (t, False)
      | Play_rejects t \<Rightarrow> Some (t, True)
      | Play_pending \<Rightarrow> None)"

text \<open>
  \<open>handleVideoTask\<close>.  The result \<open>None\<close> says that the returned promise is never resolved.
  With \<open>readyState >= 2\<close> the executor awaits \<open>onCanPlay()\<close>, and with it the promise of
  \<open>play()\<close>, before it reaches \<open>setTimeout\<close>; otherwise the listener and the timer of 5000 ms
  are both set and the first of them resolves.  What a late \<open>canplay\<close> does after the timer
  has resolved the promise is not part of the returned state.
\<close>

definition handleVideoTask :: "state \<Rightarrow> (bool \<times> state) option" where
  "handleVideoTask s =
     (case video (page s) of
        None \<Rightarrow> Some (True, s)
      | Some v0 \<Rightarrow>
          (let s1 = log_js Info Msg_video s;
               v1 = v0\<lparr>muted := True\<rparr>
           in if readyState v1 \<ge> 2 then
                (case play_settles (play_promise v1) of
                   None \<Rightarrow> None
                 | Some (t, rejected) \<Rightarrow>
                     Some (True,
                       onCanPlay_finish rejected
                         (awaited t (set_video (onCanPlay_start v1) s1))))
              else
                (case canplay_after v1 of
                   None \<Rightarrow> Some (True, awaited 5000 (set_video v1 s1))
                 | Some c \<Rightarrow>
                     if c < 5000 then
                       (case play_settles (play_promise v1) of
                          None \<Rightarrow>
                            Some (True, awaited 5000 (set_video (onCanPlay_start v1) s1))
                        | Some (t, rejected) \<Rightarrow>
                            if c + t < 5000 then
                              Some (True,
                                onCanPlay_finish rejected
                                  (awaited (c + t) (set_video (onCanPlay_start v1) s1)))
                            else
                              Some (True,
                                awaited 5000 (set_video (onCanPlay_start v1) s1)))
                     else Some (True, awaited 5000 (set_video v1 s1)))))"

definition handleSkippableTask :: "string \<Rightarrow> state \<Rightarrow> bool \<times> state" where
  "handleSkippableTask taskName s = (True, sleep 2000 3000 (log_js Info (Msg_skip taskName) s))"

text \<open>
  The loop \<open>while (maxClicks-- > 0)\<close> of \<open>handleVocabularyTask\<close>; the first argument is the
  value of \<open>maxClicks\<close> when the condition is tested.
\<close>

fun voc_loop :: "nat \<Rightarrow> state \<Rightarrow> bool \<times> state" where
  "voc_loop 0 s = (True, log_js Warn Msg_click_limit s)"
| "voc_loop (Suc maxClicks) s =
     (if \<not> isAutomationRunning s then (False, s)
      else if \<not> voc_next (page s) then (True, log_js Success Msg_cards_done s)
      else voc_loop maxClicks (sleep 600 1000 (robustClick Voc_next s)))"

definition handleVocabularyTask :: "state \<Rightarrow> bool \<times> state" where
  "handleVocabularyTask s =
     (let s1 = log_js Info Msg_vocabulary s in
      if \<not> vocabulary_wrapper (page s1) then (True, s1) else voc_loop 50 s1)"

definition executeMethod :: "task_method \<Rightarrow> string \<Rightarrow> state \<Rightarrow> state option" where
  "executeMethod m name s =
     (let s1 = emit (Call (P_executeMethod m name)) s in
      case m of
        Video \<Rightarrow> map_option snd (handleVideoTask s1)
      | Skip \<Rightarrow> Some (snd (handleSkippableTask name s1))
      | Vocabulary \<Rightarrow> Some (snd (handleVocabularyTask s1))
      | Quiz \<Rightarrow> Some (doAnswer s1)
      | Other_method x \<Rightarrow> Some (log_js Warn (Msg_unknown_method m) s1))"

section \<open>Submission and navigation\<close>

definition submitSelectors :: "(page \<Rightarrow> submit_btn option) list" where
  "submitSelectors = [course_page_btn, primary_lg_btn, primary_enabled_btn]"

fun submit_loop :: "nat \<Rightarrow> (page \<Rightarrow> submit_btn option) list \<Rightarrow> state \<Rightarrow> bool \<times> state" where
  "submit_loop k [] s = (False, s)"
| "submit_loop k (selector # selectors) s =
     (case selector (page s) of
        None \<Rightarrow> submit_loop (Suc k) selectors s
      | Some btn \<Rightarrow>
          if sb_visible btn \<and> sb_caption_ok btn then
            (let s1 = sleep 1500 1500 (robustClick (Submit k) (log_js Info Msg_submit s)) in
             (True,
              if confirm_btn (page s1)
              then sleep 1500 1500 (robustClick Confirm (log_js Info Msg_confirm s1))
              else s1))
          else submit_loop (Suc k) selectors s)"

definition completeAndNavigateTaskInternal :: "state \<Rightarrow> bool \<times> state" where
  "completeAndNavigateTaskInternal s =
     (let s1 = sleep 1000 1000 (emit (Call P_completeAndNavigateTaskInternal) s);
          s2 = (if next_question_disabled (page s1) = Some False
                then sleep 2000 2000
                       (robustClick Next_question (log_js Info Msg_next_question s1))
                else s1)
      in submit_loop 0 submitSelectors s2)"

text \<open>\<open>allMainTasks.indexOf(currentMainTask)\<close>, with \<open>None\<close> for \<open>-1\<close>.\<close>

definition currentIndex_of :: "page \<Rightarrow> nat option" where
  "currentIndex_of p =
     (case menu_current p of
        None \<Rightarrow> None
      | Some i \<Rightarrow> if i < length (menu_items p) then Some i else None)"

definition navigateToNextMainTask :: "state \<Rightarrow> state" where
  "navigateToNextMainTask s =
     (let s1 = log_js Info Msg_navigating
                 (sleep 2000 2000 (emit (Call P_navigateToNextMainTask) s))
      in case currentIndex_of (page s1) of
           None \<Rightarrow> log_js Error Msg_no_current s1
         | Some currentIndex \<Rightarrow>
             if Suc currentIndex < length (menu_items (page s1)) then
               robustClick (Menu_item (Suc currentIndex))
                 (log_js Success (Msg_next_task (menu_items (page s1) ! Suc currentIndex)) s1)
             else toggleAutomation (log_js Success Msg_all_done s1))"

section \<open>The sequencer\<close>

text \<open>\<open>subTaskElements.find(el => el.getAttribute('title') === name)\<close>, by position.\<close>

fun find_tab :: "nat \<Rightarrow> string \<Rightarrow> string option list \<Rightarrow> nat option" where
  "find_tab k name [] = None"
| "find_tab k name (t # ts) = (if t = Some name then Some k else find_tab (Suc k) name ts)"

text \<open>
  The loop over \<open>taskData.children\<close>.  \<open>None\<close>: a handler never came back.  The flag of the
  result is false when the loop left \<open>main\<close> by \<open>return\<close> (the run was stopped).
\<close>

fun process_children :: "string option list \<Rightarrow> child list \<Rightarrow> state \<Rightarrow> (bool \<times> state) option" where
  "process_children subTaskElements [] s = Some (True, s)"
| "process_children subTaskElements (subTaskConfig # rest) s =
     (if \<not> isAutomationRunning s then Some (False, s)
      else
        (case find_tab 0 (c_name subTaskConfig) subTaskElements of
           None \<Rightarrow>
             process_children subTaskElements rest
               (log_js Warn (Msg_tab_missing (c_name subTaskConfig)) s)
         | Some k \<Rightarrow>
             (case executeMethod (c_method subTaskConfig) (c_name subTaskConfig)
                     (sleep 2500 2500
                       (robustClick (Tab k)
                         (log_js Info
                           (Msg_subtask (c_name subTaskConfig) (c_method subTaskConfig)) s))) of
                None \<Rightarrow> None
              | Some s1 \<Rightarrow>
                  process_children subTaskElements rest
                    (if c_needsSubmit subTaskConfig
                     then sleep 1500 1500 (snd (completeAndNavigateTaskInternal s1))
                     else s1))))"

text \<open>\<open>document.querySelector(...)?.getAttribute('title')\<close> of line 318.\<close>

definition currentMainTaskName_of :: "page \<Rightarrow> string option" where
  "currentMainTaskName_of p = (case menu_title p of None \<Rightarrow> None | Some t \<Rightarrow> t)"

text \<open>\<open>GM_getValue(key, '')\<close>\<close>

definition GM_getValue :: "string option \<Rightarrow> string" where
  "GM_getValue v = (case v of None \<Rightarrow> [] | Some x \<Rightarrow> x)"

datatype completion = Normal | Thrown

text \<open>
  The \<open>try\<close> block of \<open>main\<close>: how it is left (\<open>Thrown\<close> by the \<open>throw\<close> of line 319), and
  the state then; \<open>None\<close> when a handler never came back.
\<close>

definition main_try :: "state \<Rightarrow> (completion \<times> state) option" where
  "main_try s =
     (let s1 = sleep 3000 3000 s;
          currentMainTaskName = currentMainTaskName_of (page s1)
      in if \<not> truthy currentMainTaskName then Some (Thrown, s1)
         else
           (let name = the currentMainTaskName;
                lastProcessed = GM_getValue (gm_lastProcessedTaskName s1)
            in if name = lastProcessed \<and> href (page s1) = GM_getValue (gm_lastUrl s1)
               then Some (Normal, navigateToNextMainTask (log_js Warn (Msg_stuck name) s1))
               else
                 (let s2 = (if name \<noteq> lastProcessed then s1\<lparr>lastAnsweredSubTask := []\<rparr>
                            else s1);
                      s3 = log_js Success (Msg_start name) s2
                  in case find (\<lambda>t. includes_str name (t_id t)) UNIT_STRUCTURE of
                       None \<Rightarrow>
                         Some (Normal,
                           navigateToNextMainTask (log_js Warn (Msg_unmapped name) s3))
                     | Some taskData \<Rightarrow>
                         (case (case t_kind taskData of
                                  Standalone m needsSubmit \<Rightarrow>
                                    (case executeMethod m (t_name taskData) s3 of
                                       None \<Rightarrow> None
                                     | Some s4 \<Rightarrow>
                                         Some (True,
                                           if needsSubmit
                                           then snd (completeAndNavigateTaskInternal s4)
                                           else s4))
                                | Composite children \<Rightarrow>
                                    process_children (header_tabs (page s3)) children s3) of
                            None \<Rightarrow> None
                          | Some (False, s5) \<Rightarrow> Some (Normal, s5)
                          | Some (True, s5) \<Rightarrow>
                              (let s6 = snd (completeAndNavigateTaskInternal
                                         (log_js Info (Msg_all_parts name) s5));
                                   s7 = s6\<lparr>gm_lastProcessedTaskName := Some name,
                                           gm_lastUrl := Some (href (page s6))\<rparr>
                               in Some (Normal, navigateToNextMainTask s7))))))"

text \<open>
  \<open>main\<close>: the guard of line 312, the \<open>try\<close> block, the \<open>catch\<close> block (log, then
  \<open>toggleAutomation\<close>) and the \<open>finally\<close> block.
\<close>

definition main :: "state \<Rightarrow> state option" where
  "main s =
     (if isProcessing s \<or> \<not> isAutomationRunning s then Some s
      else
        (case main_try (s\<lparr>isProcessing := True\<rparr>) of
           None \<Rightarrow> None
         | Some (Thrown, s1) \<Rightarrow>
             Some ((toggleAutomation (log_js Error Msg_fatal s1))\<lparr>isProcessing := False\<rparr>)
         | Some (Normal, s1) \<Rightarrow> Some (s1\<lparr>isProcessing := False\<rparr>)))"

section \<open>Reading a trace\<close>

text \<open>The events a run has added to the trace of the state it started from.\<close>

definition new_events :: "state \<Rightarrow> state \<Rightarrow> event list" where
  "new_events s s' = drop (length (trace s)) (trace s')"

definition grows :: "state \<Rightarrow> state \<Rightarrow> bool" where
  "grows s s' = (\<exists>evs. trace s' = trace s @ evs)"

fun is_handler_call :: "event \<Rightarrow> bool" where
  "is_handler_call (Call (P_executeMethod m n)) = True"
| "is_handler_call (Call P_completeAndNavigateTaskInternal) = True"
| "is_handler_call e = False"

text \<open>The events by which the script acts on the questions of the page.\<close>

fun is_click :: "event \<Rightarrow> bool" where
  "is_click (Click t) = True"
| "is_click e = False"

fun is_write :: "event \<Rightarrow> bool" where
  "is_write (Set_value k i v) = True"
| "is_write (Input_event k i) = True"
| "is_write e = False"

text \<open>The events that the environment can add during a wait.\<close>

fun is_env_event :: "event \<Rightarrow> bool" where
  "is_env_event (Log l m) = True"
| "is_env_event (Set_timeout_main d) = True"
| "is_env_event e = False"

text \<open>
  The state in which \<open>main\<close> reads the page: the guard is passed, \<open>isProcessing\<close> is set and
  the first wait of 3000 ms is over.
\<close>

definition after_wait :: "state \<Rightarrow> state" where
  "after_wait s = sleep 3000 3000 (s\<lparr>isProcessing := True\<rparr>)"

text \<open>The events by which \<open>doAnswer\<close> acts on the questions: clicks and writes.\<close>

definition is_action :: "event \<Rightarrow> bool" where
  "is_action e = (is_click e \<or> is_write e)"

section \<open>What the answering rules say\<close>

text \<open>
  The rule for choice questions, in the words of the specification: the \<open>i\<close>-th letter is
  the choice for the \<open>i\<close>-th question block; the option clicked is the first one of the
  block whose caption is that letter and which is not selected yet; a block without such an
  option is left alone.
\<close>

fun positional_clicks :: "nat \<Rightarrow> option_el list list \<Rightarrow> string \<Rightarrow> target list" where
  "positional_clicks i (b # bs) (l # ls) =
     (case find_option 0 l b of None \<Rightarrow> [] | Some j \<Rightarrow> [Option_el i j])
     @ positional_clicks (Suc i) bs ls"
| "positional_clicks i bs ls = []"

text \<open>
  The rule for free-text inputs as the script applies it: the \<open>i\<close>-th line belongs to the
  \<open>i\<close>-th input, and is written there when that input is empty; the input then holds the
  line as an input of its kind stores it.
\<close>

fun fill_positional :: "input_kind \<Rightarrow> string list \<Rightarrow> string list \<Rightarrow> string list" where
  "fill_positional k (v # vs) (l # ls) =
     (if v = [] then stored_value k l else v) # fill_positional k vs ls"
| "fill_positional k vs ls = vs"

fun fill_events :: "input_kind \<Rightarrow> nat \<Rightarrow> string list \<Rightarrow> string list \<Rightarrow> event list" where
  "fill_events k i (v # vs) (l # ls) =
     (if v = [] then [Set_value k i l, Input_event k i, Sleep 200 200] else [])
     @ fill_events k (Suc i) vs ls"
| "fill_events k i vs ls = []"




definition put_inputs :: "input_kind \<Rightarrow> string list \<Rightarrow> page \<Rightarrow> page" where
  "put_inputs k vs p =
     (case k of TextInput \<Rightarrow> p\<lparr>textInputs := vs\<rparr> | FillInBlank \<Rightarrow> p\<lparr>fillInBlanks := vs\<rparr>)"

definition click_round :: "target \<Rightarrow> event list" where
  "click_round t = [Click t, Sleep 200 300]"

text \<open>
  What the three branches of \<open>doAnswer\<close> do to a page when nothing else happens during the
  waits: the events, in order, and the page afterwards.
\<close>

definition answer_events :: "answer \<Rightarrow> page \<Rightarrow> event list" where
  "answer_events ans p =
     (case ans of
        AOther \<Rightarrow> []
      | AString a \<Rightarrow>
          if choiceQuestions p \<noteq> [] \<and> test_letters (trim a) then
            concat (map click_round
              (positional_clicks 0 (choiceQuestions p) (remove_ws (trim a))))
          else if textInputs p \<noteq> [] then
            fill_events TextInput 0 (textInputs p) (answer_lines a)
          else if fillInBlanks p \<noteq> [] then
            fill_events FillInBlank 0 (fillInBlanks p) (answer_lines a)
          else [])"

definition answer_page :: "answer \<Rightarrow> page \<Rightarrow> page" where
  "answer_page ans p =
     (case ans of
        AOther \<Rightarrow> p
      | AString a \<Rightarrow>
          if choiceQuestions p \<noteq> [] \<and> test_letters (trim a) then p
          else if textInputs p \<noteq> [] then
            p\<lparr>textInputs := fill_positional TextInput (textInputs p) (answer_lines a)\<rparr>
          else if fillInBlanks p \<noteq> [] then
            p\<lparr>fillInBlanks := fill_positional FillInBlank (fillInBlanks p) (answer_lines a)\<rparr>
          else p)"

section \<open>Example pages and states\<close>

definition blank_page :: page where
  "blank_page =
     \<lparr>href = ''https://ucontent.unipus.cn/course/u1'', menu_title = None,
      node_name_text = None, active_tab = None, test_part_name = None, choiceQuestions = [],
      textInputs = [], fillInBlanks = [], video = None, vocabulary_wrapper = False,
      voc_next = False, header_tabs = [], next_question_disabled = None,
      course_page_btn = None, primary_lg_btn = None, primary_enabled_btn = None,
      confirm_btn = False, menu_items = [], menu_current = None\<rparr>"

text \<open>The state right after the user has started the automation, before anything was done.\<close>

definition started_state :: state where
  "started_state =
     \<lparr>isAutomationRunning = True, isProcessing = False, urlObserver = None,
      lastAnsweredSubTask = [], gm_lastProcessedTaskName = None, gm_lastUrl = None,
      QUESTION_BANK = [], page = blank_page, trace = [], env = []\<rparr>"

definition opt :: "string \<Rightarrow> bool \<Rightarrow> option_el" where
  "opt c b = \<lparr>caption = Some c, selected = b\<rparr>"

text \<open>
  A page on the first main task, which the persisted values record as already processed at
  this very address; the menu has a second task.
\<close>

definition stalled_state :: state where
  "stalled_state = started_state
     \<lparr>gm_lastProcessedTaskName := Some ''1-1 Setting the scene'',
      gm_lastUrl := Some (href blank_page),
      page := blank_page
        \<lparr>menu_title := Some (Some ''1-1 Setting the scene''),
         menu_items := [Some ''1-1 Setting the scene'',
                        Some ''1-2 iExplore 1: Learning before class''],
         menu_current := Some 0\<rparr>\<rparr>"

text \<open>
  The same task with the observer running; during the first wait the page moves to another
  address, the one that the persisted values record.
\<close>

definition moving_state :: state where
  "moving_state = stalled_state
     \<lparr>urlObserver := Some (href blank_page),
      gm_lastUrl := Some ''https://ucontent.unipus.cn/course/u2'',
      env := [Env_render ((page stalled_state)\<lparr>href := ''https://ucontent.unipus.cn/course/u2''\<rparr>)]\<rparr>"

text \<open>The menu element is there, but it has no \<open>title\<close> attribute.\<close>

definition untitled_state :: state where
  "untitled_state = started_state\<lparr>page := blank_page\<lparr>menu_title := Some None\<rparr>\<rparr>"

text \<open>
  The unit test with two choice questions, shown without any tab and without a test-part
  name; the bank has the answers of its first part.
\<close>

definition unit_test_page :: page where
  "unit_test_page = blank_page
     \<lparr>menu_title := Some (Some ''1-7 Unit test''),
      choiceQuestions := [[opt ''A'' False, opt ''B'' False],
                          [opt ''A'' False, opt ''B'' False]]\<rparr>"

definition unit_test_bank :: bank where
  "unit_test_bank = [(''Unit 1'', [(''Unit test'', [(''Part I'', AString ''B A'')])])]"

definition unit_test_state :: state where
  "unit_test_state = started_state\<lparr>page := unit_test_page, QUESTION_BANK := unit_test_bank\<rparr>"

text \<open>
  A flashcard view whose next control is enabled; the argument is what will happen during
  the waits.
\<close>

definition cards_page :: page where
  "cards_page = blank_page\<lparr>vocabulary_wrapper := True, voc_next := True\<rparr>"

definition cards_state :: "env_action list \<Rightarrow> state" where
  "cards_state acts = started_state\<lparr>page := cards_page, env := acts\<rparr>"

text \<open>
  The unit test with its three declared parts, shown with tabs for the first and the third
  part only.
\<close>

definition unit_test_parts :: "child list" where
  "unit_test_parts =
     [mk_child ''Part I'' Quiz True, mk_child ''Part II'' Quiz True,
      mk_child ''Part III'' Quiz True]"

definition parts_page :: page where
  "parts_page = unit_test_page\<lparr>header_tabs := [Some ''Part I'', Some ''Part III'']\<rparr>"

definition parts_state :: state where
  "parts_state = started_state\<lparr>page := parts_page, QUESTION_BANK := unit_test_bank\<rparr>"

text \<open>
  A view of the reading-comprehension sub-task; the bank has five letters for it.  The page
  shows a single empty text area and no choice question (\<open>essay_state\<close>), or five choice
  questions next to the text area (\<open>five_choices_state\<close>).
\<close>

definition essay_page :: page where
  "essay_page = blank_page
     \<lparr>menu_title := Some (Some ''1-2 iExplore 1: Learning before class''),
      active_tab := Some \<lparr>tab_title = Some ''Reading comprehension'', tab_text = []\<rparr>,
      textInputs := [[]]\<rparr>"

definition letters_bank :: bank where
  "letters_bank =
     [(''Unit 1'', [(''iExplore 1: Learning before class'',
        [(''Reading comprehension'', AString ''A B A B A'')])])]"


definition five_choices_state :: state where
  "five_choices_state = started_state
     \<lparr>page := essay_page\<lparr>choiceQuestions := replicate 5 [opt ''A'' False, opt '' B '' False]\<rparr>,
      QUESTION_BANK := letters_bank\<rparr>"





text \<open>
  A video of ten minutes that is ready to play (\<open>readyState = 4\<close>); the argument says what
  the promise of \<open>play()\<close> does.  The first main task, \<open>1-1 Setting the scene\<close>, is such a
  video.
\<close>

definition ready_video :: "play_outcome \<Rightarrow> video_el" where
  "ready_video po =
     \<lparr>readyState = 4, duration = Some 600, muted = False, currentTime = 0,
      play_called = False, canplay_after = None, play_promise = po\<rparr>"

definition video_state :: "play_outcome \<Rightarrow> state" where
  "video_state po = started_state
     \<lparr>page := blank_page
        \<lparr>menu_title := Some (Some ''1-1 Setting the scene''),
         video := Some (ready_video po)\<rparr>\<rparr>"

text \<open>The same video before it can play; the \<open>canplay\<close> event never comes.\<close>

definition loading_video_state :: state where
  "loading_video_state = started_state
     \<lparr>page := blank_page
        \<lparr>video := Some ((ready_video Play_pending)\<lparr>readyState := 0, duration := None\<rparr>)\<rparr>\<rparr>"

section \<open>How the trace grows\<close>

lemma trace_emit: "trace (emit e s) = trace s @ [e]" by (simp add: emit_def)
lemma trace_log: "trace (log_js l m s) = trace s @ [Log l m]" by (simp add: log_js_def emit_def)

lemma toggle_trace: "\<exists>evs. trace (toggleAutomation s) = trace s @ evs \<and> list_all is_env_event evs"
  by (simp add: toggleAutomation_def Let_def startObserver_def stopObserver_def log_js_def emit_def)

lemma observer_trace: "\<exists>evs. trace (observerCallback s) = trace s @ evs \<and> list_all is_env_event evs"
  by (simp add: observerCallback_def Let_def log_js_def emit_def split: option.splits)

lemma apply_env_trace: "\<exists>evs. trace (apply_env a s) = trace s @ evs \<and> list_all is_env_event evs"
proof (cases a)
  case Env_idle then show ?thesis by simp
next
  case Env_toggle then show ?thesis using toggle_trace by simp
next
  case (Env_render p) then show ?thesis using observer_trace[of "s\<lparr>page := p\<rparr>"] by simp
next
  case (Env_bank b) then show ?thesis by (simp add: log_js_def emit_def)
qed

lemma env_step_trace: "\<exists>evs. trace (env_step s) = trace s @ evs \<and> list_all is_env_event evs"
proof (cases "env s")
  case Nil then show ?thesis by (simp add: env_step_def)
next
  case (Cons a as)
  then show ?thesis using apply_env_trace[of a "s\<lparr>env := as\<rparr>"] by (simp add: env_step_def)
qed

lemma sleep_trace: "\<exists>evs. trace (sleep lo hi s) = trace s @ Sleep lo hi # evs \<and> list_all is_env_event evs"
  using env_step_trace[of "emit (Sleep lo hi) s"] by (auto simp: sleep_def emit_def)

lemma env_not_handler: "is_env_event e \<Longrightarrow> \<not> is_handler_call e"
  by (cases e) auto

lemma navigate_trace:
  "\<exists>evs. trace (navigateToNextMainTask s) = trace s @ Call P_navigateToNextMainTask # evs
      \<and> list_all (\<lambda>e. \<not> is_handler_call e) evs"
proof -
  obtain e1 where e1: "trace (sleep 2000 2000 (emit (Call P_navigateToNextMainTask) s))
      = trace s @ Call P_navigateToNextMainTask # Sleep 2000 2000 # e1" "list_all is_env_event e1"
    using sleep_trace[of 2000 2000 "emit (Call P_navigateToNextMainTask) s"] by (auto simp: emit_def)
  define s1 where "s1 = log_js Info Msg_navigating (sleep 2000 2000 (emit (Call P_navigateToNextMainTask) s))"
  have t1: "trace s1 = trace s @ Call P_navigateToNextMainTask # Sleep 2000 2000 # e1 @ [Log Info Msg_navigating]"
    by (simp add: s1_def trace_log e1)
  have nh: "list_all (\<lambda>e. \<not> is_handler_call e) e1"
    using e1(2) env_not_handler by (auto simp: list_all_iff)
  obtain e2 where e2: "trace (toggleAutomation (log_js Success Msg_all_done s1)) = trace s1 @ Log Success Msg_all_done # e2" "list_all is_env_event e2"
    using toggle_trace[of "log_js Success Msg_all_done s1"] by (auto simp: trace_log)
  have nh2: "list_all (\<lambda>e. \<not> is_handler_call e) e2"
    using e2(2) env_not_handler by (auto simp: list_all_iff)
  show ?thesis
    unfolding navigateToNextMainTask_def Let_def s1_def[symmetric]
    using t1 nh e2 nh2
    by (auto simp: trace_log robustClick_def emit_def split: option.splits)
qed

section \<open>Stall detection\<close>

text \<open>
  Claim C2.  An invocation of the sequencer that passes its guard and reads a main-task label
  equal to the persisted \<open>lastProcessedTaskName\<close>, at an address equal to the persisted
  \<open>lastUrl\<close>, does nothing but force the navigation: it logs the stall, calls
  \<open>navigateToNextMainTask\<close> and leaves through the \<open>finally\<close> block.  Among the events it adds
  there is no call of a task handler and none of the submit sequence.
\<close>

theorem stall_forces_navigation:
  assumes gate: "\<not> isProcessing s" "isAutomationRunning s"
    and label: "currentMainTaskName_of (page (after_wait s)) = Some name" "name \<noteq> []"
    and same_label: "GM_getValue (gm_lastProcessedTaskName (after_wait s)) = name"
    and same_url: "GM_getValue (gm_lastUrl (after_wait s)) = href (page (after_wait s))"
  shows "main s = Some ((navigateToNextMainTask (log_js Warn (Msg_stuck name) (after_wait s)))
                          \<lparr>isProcessing := False\<rparr>)
    \<and> (\<exists>evs. new_events (after_wait s) (the (main s))
                 = Log Warn (Msg_stuck name) # Call P_navigateToNextMainTask # evs
             \<and> list_all (\<lambda>e. \<not> is_handler_call e) evs)"
proof -
  let ?s1 = "after_wait s"
  have mt: "main_try (s\<lparr>isProcessing := True\<rparr>)
             = Some (Normal, navigateToNextMainTask (log_js Warn (Msg_stuck name) ?s1))"
    using label same_label same_url
    by (simp add: main_try_def Let_def truthy_def after_wait_def)
  have m: "main s = Some ((navigateToNextMainTask (log_js Warn (Msg_stuck name) ?s1))
                          \<lparr>isProcessing := False\<rparr>)"
    using gate mt by (simp add: main_def)
  obtain evs where evs:
    "trace (navigateToNextMainTask (log_js Warn (Msg_stuck name) ?s1))
       = trace (log_js Warn (Msg_stuck name) ?s1) @ Call P_navigateToNextMainTask # evs"
    "list_all (\<lambda>e. \<not> is_handler_call e) evs"
    using navigate_trace by blast
  have "new_events ?s1 (the (main s))
          = Log Warn (Msg_stuck name) # Call P_navigateToNextMainTask # evs"
    using m evs(1) by (simp add: new_events_def trace_log)
  with m evs(2) show ?thesis by blast
qed

theorem stall_forces_navigation_witness:
  "\<not> isProcessing stalled_state \<and> isAutomationRunning stalled_state
   \<and> currentMainTaskName_of (page (after_wait stalled_state)) = Some ''1-1 Setting the scene''
   \<and> GM_getValue (gm_lastProcessedTaskName (after_wait stalled_state))
       = ''1-1 Setting the scene''
   \<and> GM_getValue (gm_lastUrl (after_wait stalled_state)) = href (page (after_wait stalled_state))
   \<and> main stalled_state
       = Some ((navigateToNextMainTask
                  (log_js Warn (Msg_stuck ''1-1 Setting the scene'') (after_wait stalled_state)))
                \<lparr>isProcessing := False\<rparr>)
   \<and> new_events stalled_state (the (main stalled_state))
       = [Sleep 3000 3000, Log Warn (Msg_stuck ''1-1 Setting the scene''),
          Call P_navigateToNextMainTask, Sleep 2000 2000, Log Info Msg_navigating,
          Log Success (Msg_next_task (Some ''1-2 iExplore 1: Learning before class'')),
          Click (Menu_item 1)]"
proof -
  have h1: "\<not> isProcessing stalled_state" by code_simp
  have h2: "isAutomationRunning stalled_state" by code_simp
  have h3: "currentMainTaskName_of (page (after_wait stalled_state))
              = Some ''1-1 Setting the scene''" by code_simp
  have h4: "''1-1 Setting the scene'' \<noteq> []" by simp
  have h5: "GM_getValue (gm_lastProcessedTaskName (after_wait stalled_state))
              = ''1-1 Setting the scene''" by code_simp
  have h6: "GM_getValue (gm_lastUrl (after_wait stalled_state))
              = href (page (after_wait stalled_state))" by code_simp
  have ev: "new_events stalled_state (the (main stalled_state))
       = [Sleep 3000 3000, Log Warn (Msg_stuck ''1-1 Setting the scene''),
          Call P_navigateToNextMainTask, Sleep 2000 2000, Log Info Msg_navigating,
          Log Success (Msg_next_task (Some ''1-2 iExplore 1: Learning before class'')),
          Click (Menu_item 1)]" by code_simp
  from stall_forces_navigation [OF h1 h2 h3 h4 h5 h6]
  have "main stalled_state
       = Some ((navigateToNextMainTask
                  (log_js Warn (Msg_stuck ''1-1 Setting the scene'') (after_wait stalled_state)))
                \<lparr>isProcessing := False\<rparr>)" by (rule conjunct1)
  with h1 h2 h3 h5 h6 ev show ?thesis by blast
qed

section \<open>An unreadable main-task label\<close>

text \<open>
  Claim C3, as stated, fails: the script keeps no count of failures, and the first invocation
  that cannot read the label already switches the automation off.  Here the automation has
  just been started, nothing has happened yet, and the page has no menu element.
\<close>

theorem first_failure_counterexample:
  "isAutomationRunning started_state \<and> \<not> isProcessing started_state \<and> trace started_state = []
   \<and> currentMainTaskName_of (page (after_wait started_state)) = None
   \<and> map_option isAutomationRunning (main started_state) = Some False"
  by code_simp

text \<open>
  Claim C3, amended.  When the label cannot be read (the run flag still being set when the
  first wait is over), the invocation is aborted: it logs the error, switches the automation
  off at once and stops the observer, and it clicks nothing and runs no handler.
\<close>

theorem unreadable_label_disables_at_once:
  assumes gate: "\<not> isProcessing s" "isAutomationRunning s"
    and unreadable: "\<not> truthy (currentMainTaskName_of (page (after_wait s)))"
    and still_on: "isAutomationRunning (after_wait s)"
  shows "\<exists>s'. main s = Some s' \<and> \<not> isAutomationRunning s' \<and> \<not> isProcessing s'
            \<and> urlObserver s' = None
            \<and> new_events (after_wait s) s'
                = [Log Error Msg_fatal, Log Warn Msg_paused, Log Warn Msg_observer_stopped]"
proof -
  let ?s1 = "after_wait s"
  have mt: "main_try (s\<lparr>isProcessing := True\<rparr>) = Some (Thrown, ?s1)"
    using unreadable by (simp add: main_try_def Let_def after_wait_def)
  let ?s' = "(toggleAutomation (log_js Error Msg_fatal ?s1))\<lparr>isProcessing := False\<rparr>"
  have m: "main s = Some ?s'"
    using gate mt by (simp add: main_def)
  have off: "\<not> isAutomationRunning ?s'" "urlObserver ?s' = None"
    using still_on
    by (simp_all add: toggleAutomation_def Let_def log_js_def emit_def stopObserver_def)
  have tr: "new_events ?s1 ?s'
              = [Log Error Msg_fatal, Log Warn Msg_paused, Log Warn Msg_observer_stopped]"
    using still_on
    by (simp add: new_events_def toggleAutomation_def Let_def log_js_def emit_def
          stopObserver_def)
  show ?thesis using m off tr by simp
qed

theorem unreadable_label_disables_at_once_witness:
  "\<not> isProcessing untitled_state \<and> isAutomationRunning untitled_state
   \<and> \<not> truthy (currentMainTaskName_of (page (after_wait untitled_state)))
   \<and> isAutomationRunning (after_wait untitled_state)
   \<and> (\<exists>s'. main untitled_state = Some s' \<and> \<not> isAutomationRunning s' \<and> \<not> isProcessing s'
            \<and> urlObserver s' = None
            \<and> new_events (after_wait untitled_state) s'
                = [Log Error Msg_fatal, Log Warn Msg_paused, Log Warn Msg_observer_stopped])"
proof -
  have h1: "\<not> isProcessing untitled_state" by code_simp
  have h2: "isAutomationRunning untitled_state" by code_simp
  have h3: "\<not> truthy (currentMainTaskName_of (page (after_wait untitled_state)))" by code_simp
  have h4: "isAutomationRunning (after_wait untitled_state)" by code_simp
  from unreadable_label_disables_at_once [OF h1 h2 h3 h4] h1 h2 h3 h4
  show ?thesis by blast
qed

section \<open>The default sub-task name\<close>

text \<open>
  Claim C10.  When the page has a main-task label (from which the unit can be read) but
  neither an active tab nor a test-part name, the resolver does not fail: the sub-task name
  is \<open>'Part I'\<close>, the bank is read under that key, and an entry found there is returned as
  the answers of the view.
\<close>

theorem part_I_default:
  assumes label: "mainTaskContent_of (page s) = Some l" "l \<noteq> []" "unit_id_match l = Some u"
    and no_tab: "active_tab (page s) = None"
    and no_part: "test_part_name (page s) = None"
    and fresh: "lastAnsweredSubTask s \<noteq> dedup_key l ''Part I''"
    and entry: "bank_lookup (QUESTION_BANK s) (''Unit '' @ u) (mainTaskKey_of l) ''Part I''
                  = Some a"
               "a \<noteq> AString []"
  shows "activeSubTaskName_of (page s) = ''Part I''
     \<and> getPageContextAndAnswers s
         = (Ctx a l ''Part I'', log_js Success (Msg_answer_found ''Part I'') s)"
proof -
  have n: "activeSubTaskName_of (page s) = ''Part I''"
    using no_tab no_part by (simp add: activeSubTaskName_of_def truthy_def)
  have "getPageContextAndAnswers s
         = (Ctx a l ''Part I'', log_js Success (Msg_answer_found ''Part I'') s)"
    using label fresh entry n
    by (simp add: getPageContextAndAnswers_def Let_def truthy_def no_answers_def)
  with n show ?thesis by simp
qed

theorem part_I_default_witness:
  "mainTaskContent_of (page unit_test_state) = Some ''1-7 Unit test''
   \<and> unit_id_match ''1-7 Unit test'' = Some ''1''
   \<and> active_tab (page unit_test_state) = None \<and> test_part_name (page unit_test_state) = None
   \<and> bank_lookup (QUESTION_BANK unit_test_state) (''Unit '' @ ''1'')
        (mainTaskKey_of ''1-7 Unit test'') ''Part I'' = Some (AString ''B A'')
   \<and> getPageContextAndAnswers unit_test_state
       = (Ctx (AString ''B A'') ''1-7 Unit test'' ''Part I'',
          log_js Success (Msg_answer_found ''Part I'') unit_test_state)
   \<and> filter is_click (trace (doAnswer unit_test_state))
       = [Click (Option_el 0 1), Click (Option_el 1 0)]"
proof -
  have h1: "mainTaskContent_of (page unit_test_state) = Some ''1-7 Unit test''" by code_simp
  have h2: "''1-7 Unit test'' \<noteq> []" by simp
  have h3: "unit_id_match ''1-7 Unit test'' = Some ''1''" by code_simp
  have h4: "active_tab (page unit_test_state) = None" by code_simp
  have h5: "test_part_name (page unit_test_state) = None" by code_simp
  have h6: "lastAnsweredSubTask unit_test_state \<noteq> dedup_key ''1-7 Unit test'' ''Part I''"
    by code_simp
  have h7: "bank_lookup (QUESTION_BANK unit_test_state) (''Unit '' @ ''1'')
              (mainTaskKey_of ''1-7 Unit test'') ''Part I'' = Some (AString ''B A'')"
    by code_simp
  have h8: "AString ''B A'' \<noteq> AString []" by simp
  have cl: "filter is_click (trace (doAnswer unit_test_state))
              = [Click (Option_el 0 1), Click (Option_el 1 0)]" by code_simp
  from part_I_default [OF h1 h2 h3 h4 h5 h6 h7 h8] h1 h3 h4 h5 h7 cl
  show ?thesis by blast
qed

section \<open>The flashcard handler\<close>

lemma env_not_click: "is_env_event e \<Longrightarrow> \<not> is_click e"
  by (cases e) auto

lemma env_events_no_click: "list_all is_env_event evs \<Longrightarrow> filter is_click evs = []"
  by (induction evs) (auto dest: env_not_click)

lemma voc_loop_trace:
  "\<exists>evs. trace (snd (voc_loop n s)) = trace s @ evs
      \<and> length (filter is_click evs) \<le> n
      \<and> (length (filter is_click evs) = n \<longrightarrow>
            fst (voc_loop n s) \<and> evs \<noteq> [] \<and> last evs = Log Warn Msg_click_limit)"
proof (induction n arbitrary: s)
  case 0
  show ?case by (simp add: trace_log)
next
  case (Suc n)
  show ?case
  proof (cases "isAutomationRunning s \<and> voc_next (page s)")
    case False
    then show ?thesis by (auto simp: trace_log)
  next
    case True
    let ?s1 = "sleep 600 1000 (robustClick Voc_next s)"
    obtain e1 where e1: "trace ?s1 = trace s @ Click Voc_next # Sleep 600 1000 # e1"
        "list_all is_env_event e1"
      using sleep_trace[of 600 1000 "robustClick Voc_next s"]
      by (auto simp: robustClick_def trace_emit)
    obtain e2 where e2: "trace (snd (voc_loop n ?s1)) = trace ?s1 @ e2"
        "length (filter is_click e2) \<le> n"
        "length (filter is_click e2) = n \<longrightarrow>
            fst (voc_loop n ?s1) \<and> e2 \<noteq> [] \<and> last e2 = Log Warn Msg_click_limit"
      using Suc.IH[of ?s1] by blast
    have v: "voc_loop (Suc n) s = voc_loop n ?s1"
      using True by simp
    have t: "trace (snd (voc_loop (Suc n) s))
               = trace s @ (Click Voc_next # Sleep 600 1000 # e1 @ e2)"
      using v e1(1) e2(1) by simp
    have c: "length (filter is_click (Click Voc_next # Sleep 600 1000 # e1 @ e2))
               = Suc (length (filter is_click e2))"
      using env_events_no_click[OF e1(2)] by simp
    show ?thesis using t c e2(2,3) v
      by (intro exI[of _ "Click Voc_next # Sleep 600 1000 # e1 @ e2"]) auto
  qed
qed

lemma voc_loop_false: "\<not> fst (voc_loop n s) \<Longrightarrow> \<not> isAutomationRunning (snd (voc_loop n s))"
  by (induction n arbitrary: s) (auto split: if_splits)

text \<open>With nothing happening during the waits, an enabled next control stays enabled.\<close>

lemma voc_loop_all_enabled:
  "env s = [] \<Longrightarrow> isAutomationRunning s \<Longrightarrow> voc_next (page s) \<Longrightarrow>
   voc_loop n s
     = (True, log_js Warn Msg_click_limit
                (s\<lparr>trace := trace s @ concat (replicate n [Click Voc_next, Sleep 600 1000])\<rparr>))"
proof (induction n arbitrary: s)
  case 0
  then show ?case by simp
next
  case (Suc n)
  let ?s1 = "sleep 600 1000 (robustClick Voc_next s)"
  have s1: "?s1 = s\<lparr>trace := trace s @ [Click Voc_next, Sleep 600 1000]\<rparr>"
    using Suc.prems(1) by (simp add: sleep_def env_step_def robustClick_def emit_def)
  have "voc_loop n ?s1
     = (True, log_js Warn Msg_click_limit
                (?s1\<lparr>trace := trace ?s1 @ concat (replicate n [Click Voc_next, Sleep 600 1000])\<rparr>))"
    by (rule Suc.IH) (use Suc.prems s1 in simp_all)
  then show ?case using Suc.prems s1 by simp
qed

lemma clicks_of_rounds:
  "length (filter is_click (concat (replicate n [Click Voc_next, Sleep 600 1000]))) = n"
  by (induction n) simp_all

text \<open>
  Claim C7.  The handler is a total function, so it always returns.  It clicks the next
  control at most 50 times; when it has clicked 50 times it returns true after the warning
  that the limit was reached; it returns false only when the run flag is off; and at the
  head of every round the loop ends at once when the run flag is off (false, nothing more
  done) or when no enabled next control is there (true, after the success line).
\<close>

theorem flashcards_bounded:
  "(\<exists>evs. trace (snd (handleVocabularyTask s)) = trace s @ evs
       \<and> length (filter is_click evs) \<le> 50
       \<and> (length (filter is_click evs) = 50 \<longrightarrow>
             fst (handleVocabularyTask s) \<and> last evs = Log Warn Msg_click_limit))
   \<and> (\<not> fst (handleVocabularyTask s) \<longrightarrow> \<not> isAutomationRunning (snd (handleVocabularyTask s)))
   \<and> (\<not> isAutomationRunning s' \<longrightarrow> voc_loop (Suc k) s' = (False, s'))
   \<and> (isAutomationRunning s' \<and> \<not> voc_next (page s') \<longrightarrow>
         voc_loop (Suc k) s' = (True, log_js Success Msg_cards_done s'))"
proof -
  let ?s1 = "log_js Info Msg_vocabulary s"
  have a: "\<exists>evs. trace (snd (handleVocabularyTask s)) = trace s @ evs
       \<and> length (filter is_click evs) \<le> 50
       \<and> (length (filter is_click evs) = 50 \<longrightarrow>
             fst (handleVocabularyTask s) \<and> last evs = Log Warn Msg_click_limit)"
  proof (cases "vocabulary_wrapper (page ?s1)")
    case False
    then show ?thesis by (simp add: handleVocabularyTask_def Let_def trace_log)
  next
    case True
    obtain e where e: "trace (snd (voc_loop 50 ?s1)) = trace ?s1 @ e"
        "length (filter is_click e) \<le> 50"
        "length (filter is_click e) = 50 \<longrightarrow>
            fst (voc_loop 50 ?s1) \<and> e \<noteq> [] \<and> last e = Log Warn Msg_click_limit"
      using voc_loop_trace[of 50 ?s1] by blast
    have h: "handleVocabularyTask s = voc_loop 50 ?s1"
      using True by (simp add: handleVocabularyTask_def Let_def)
    show ?thesis using e h
      by (intro exI[of _ "Log Info Msg_vocabulary # e"]) (auto simp: trace_log)
  qed
  have b: "\<not> fst (handleVocabularyTask s) \<longrightarrow>
             \<not> isAutomationRunning (snd (handleVocabularyTask s))"
    using voc_loop_false[of 50 ?s1]
    by (auto simp: handleVocabularyTask_def Let_def split: if_splits)
  show ?thesis using a b by simp
qed

text \<open>
  Three runs: nothing happens and the control stays enabled (50 clicks, then true); the
  page disables the control during the second wait (two clicks, then true); the user stops
  the run during the first wait (one click, then false).
\<close>

theorem flashcards_bounded_witness:
  "length (filter is_click (new_events (cards_state []) (snd (handleVocabularyTask (cards_state [])))))
     = 50
   \<and> fst (handleVocabularyTask (cards_state []))
   \<and> handleVocabularyTask (cards_state [Env_idle, Env_render (cards_page\<lparr>voc_next := False\<rparr>)])
       = (True, (cards_state [])
                  \<lparr>page := cards_page\<lparr>voc_next := False\<rparr>,
                   trace := [Log Info Msg_vocabulary, Click Voc_next, Sleep 600 1000,
                             Click Voc_next, Sleep 600 1000, Log Success Msg_cards_done]\<rparr>)
   \<and> \<not> fst (handleVocabularyTask (cards_state [Env_toggle]))
   \<and> \<not> isAutomationRunning (snd (handleVocabularyTask (cards_state [Env_toggle])))
   \<and> filter is_click (trace (snd (handleVocabularyTask (cards_state [Env_toggle]))))
       = [Click Voc_next]"
proof -
  let ?s = "cards_state []"
  let ?round = "[Click Voc_next, Sleep 600 1000]"
  have pre: "env (log_js Info Msg_vocabulary ?s) = []"
      "isAutomationRunning (log_js Info Msg_vocabulary ?s)"
      "voc_next (page (log_js Info Msg_vocabulary ?s))"
      "vocabulary_wrapper (page (log_js Info Msg_vocabulary ?s))"
      "trace ?s = []"
    by (simp_all add: cards_state_def cards_page_def started_state_def log_js_def emit_def)
  have run: "handleVocabularyTask ?s
      = (True, log_js Warn Msg_click_limit
           ((log_js Info Msg_vocabulary ?s)
              \<lparr>trace := trace (log_js Info Msg_vocabulary ?s) @ concat (replicate 50 ?round)\<rparr>))"
    using voc_loop_all_enabled[OF pre(1,2,3), of 50] pre(4)
    by (simp add: handleVocabularyTask_def Let_def)
  have tr: "trace (snd (handleVocabularyTask ?s))
      = trace ?s @ (Log Info Msg_vocabulary # concat (replicate 50 ?round)
                      @ [Log Warn Msg_click_limit])"
    by (simp only: run snd_conv trace_log pre(5))
       (simp add: log_js_def emit_def)
  have n: "length (filter is_click (Log Info Msg_vocabulary # concat (replicate 50 ?round)
                      @ [Log Warn Msg_click_limit])) = 50"
    using clicks_of_rounds[of 50] by simp
  obtain evs where evs: "trace (snd (handleVocabularyTask ?s)) = trace ?s @ evs"
      "length (filter is_click evs) = 50 \<longrightarrow> fst (handleVocabularyTask ?s)"
    using flashcards_bounded[of ?s] by blast
  have eq: "evs = Log Info Msg_vocabulary # concat (replicate 50 ?round)
                      @ [Log Warn Msg_click_limit]"
    using evs(1) tr by simp
  have 1: "length (filter is_click (new_events ?s (snd (handleVocabularyTask ?s)))) = 50"
    using evs(1) n eq by (simp add: new_events_def)
  have 2: "fst (handleVocabularyTask ?s)"
    using evs(2) n eq by simp
  have 3: "handleVocabularyTask (cards_state [Env_idle, Env_render (cards_page\<lparr>voc_next := False\<rparr>)])
       = (True, (cards_state [])
                  \<lparr>page := cards_page\<lparr>voc_next := False\<rparr>,
                   trace := [Log Info Msg_vocabulary, Click Voc_next, Sleep 600 1000,
                             Click Voc_next, Sleep 600 1000, Log Success Msg_cards_done]\<rparr>)"
    by code_simp
  have 4: "\<not> fst (handleVocabularyTask (cards_state [Env_toggle]))"
    by code_simp
  have 5: "\<not> isAutomationRunning (snd (handleVocabularyTask (cards_state [Env_toggle])))"
    using flashcards_bounded[of "cards_state [Env_toggle]"] 4 by blast
  have 6: "filter is_click (trace (snd (handleVocabularyTask (cards_state [Env_toggle]))))
       = [Click Voc_next]"
    by code_simp
  show ?thesis using 1 2 3 4 5 6 by blast
qed

section \<open>A sub-task whose tab is missing\<close>

lemma find_tab_None: "find_tab k name tabs = None \<longleftrightarrow> Some name \<notin> set tabs"
  by (induction tabs arbitrary: k) auto

text \<open>
  Claim C9.  In the loop over the declared sub-tasks of a composite task, a sub-task for
  which no tab has its name as title costs one warning and nothing else: the loop goes on
  with the later sub-tasks, in their order, from the state that differs by that log line
  only.
\<close>

theorem missing_tab_skipped:
  assumes running: "isAutomationRunning s" and missing: "Some (c_name c) \<notin> set tabs"
  shows "process_children tabs (c # rest) s
           = process_children tabs rest (log_js Warn (Msg_tab_missing (c_name c)) s)"
proof -
  have "find_tab 0 (c_name c) tabs = None"
    using missing by (simp add: find_tab_None)
  with running show ?thesis by simp
qed

text \<open>
  The unit test with three parts and no tab for the second: the first part is handled and
  submitted, the second costs a warning, the third is handled and submitted, and the loop
  ends normally.
\<close>

theorem missing_tab_skipped_witness:
  "isAutomationRunning parts_state
   \<and> Some (c_name (mk_child ''Part II'' Quiz True)) \<notin> set (header_tabs parts_page)
   \<and> process_children (header_tabs parts_page)
        (mk_child ''Part II'' Quiz True # [mk_child ''Part III'' Quiz True]) parts_state
       = process_children (header_tabs parts_page) [mk_child ''Part III'' Quiz True]
           (log_js Warn (Msg_tab_missing (c_name (mk_child ''Part II'' Quiz True))) parts_state)
   \<and> map_option
        (\<lambda>r. (fst r,
              filter (\<lambda>e. is_handler_call e \<or> e = Log Warn (Msg_tab_missing ''Part II''))
                (new_events parts_state (snd r))))
        (process_children (header_tabs parts_page) unit_test_parts parts_state)
       = Some (True,
           [Call (P_executeMethod Quiz ''Part I''), Call P_completeAndNavigateTaskInternal,
            Log Warn (Msg_tab_missing ''Part II''),
            Call (P_executeMethod Quiz ''Part III''), Call P_completeAndNavigateTaskInternal])"
proof -
  have h1: "isAutomationRunning parts_state" by code_simp
  have h2: "Some (c_name (mk_child ''Part II'' Quiz True)) \<notin> set (header_tabs parts_page)"
    by code_simp
  have run: "map_option
        (\<lambda>r. (fst r,
              filter (\<lambda>e. is_handler_call e \<or> e = Log Warn (Msg_tab_missing ''Part II''))
                (new_events parts_state (snd r))))
        (process_children (header_tabs parts_page) unit_test_parts parts_state)
       = Some (True,
           [Call (P_executeMethod Quiz ''Part I''), Call P_completeAndNavigateTaskInternal,
            Log Warn (Msg_tab_missing ''Part II''),
            Call (P_executeMethod Quiz ''Part III''), Call P_completeAndNavigateTaskInternal])"
    by code_simp
  from missing_tab_skipped [OF h1 h2, of "[mk_child ''Part III'' Quiz True]"] h1 h2 run
  show ?thesis by blast
qed

section \<open>The answering loops when nothing else happens\<close>

lemma sleep_quiescent: "env s = [] \<Longrightarrow> sleep lo hi s = emit (Sleep lo hi) s"
  by (simp add: sleep_def env_step_def emit_def)

lemma positional_clicks_Nil2 [simp]: "positional_clicks i bs [] = []"
  by (cases bs) simp_all

lemma choice_loop_quiescent:
  "env s = [] \<Longrightarrow> n = min (length (choiceQuestions (page s))) (length ls) \<Longrightarrow>
   choice_loop i n ls ans s =
     (ans \<or> positional_clicks i (drop i (choiceQuestions (page s))) (drop i ls) \<noteq> [],
      s\<lparr>trace := trace s @ concat (map click_round
           (positional_clicks i (drop i (choiceQuestions (page s))) (drop i ls)))\<rparr>)"
proof (induction i n ls ans s rule: choice_loop.induct)
  case (1 i n ls ans s)
  let ?B = "choiceQuestions (page s)"
  show ?case
  proof (cases "i < n")
    case False
    then have "drop i ?B = [] \<or> drop i ls = []" using "1.prems"(2) by auto
    then have "positional_clicks i (drop i ?B) (drop i ls) = []" by auto
    then show ?thesis using False by (simp add: choice_loop.simps[of i n])
  next
    case True
    then have iB: "i < length ?B" and iL: "i < length ls" using "1.prems"(2) by auto
    have dB: "drop i ?B = ?B ! i # drop (Suc i) ?B" using iB by (simp add: Cons_nth_drop_Suc)
    have dL: "drop i ls = ls ! i # drop (Suc i) ls" using iL by (simp add: Cons_nth_drop_Suc)
    have blk: "block_at (page s) i = ?B ! i" using iB by (simp add: block_at_def)
    show ?thesis
    proof (cases "find_option 0 (ls ! i) (?B ! i)")
      case None
      have "choice_loop i n ls ans s = choice_loop (Suc i) n ls ans s"
        using True None blk by (simp add: choice_loop.simps[of i n])
      also have "\<dots> = (ans \<or> positional_clicks (Suc i) (drop (Suc i) ?B) (drop (Suc i) ls) \<noteq> [],
          s\<lparr>trace := trace s @ concat (map click_round
           (positional_clicks (Suc i) (drop (Suc i) ?B) (drop (Suc i) ls)))\<rparr>)"
        using "1.IH"(1)[OF True] None blk "1.prems" by simp
      finally show ?thesis using None by (simp add: dB dL)
    next
      case (Some j)
      let ?s' = "sleep 200 300 (robustClick (Option_el i j) s)"
      have s': "?s' = s\<lparr>trace := trace s @ click_round (Option_el i j)\<rparr>"
        using "1.prems"(1) by (simp add: sleep_def env_step_def robustClick_def emit_def click_round_def)
      have "choice_loop i n ls ans s = choice_loop (Suc i) n ls True ?s'"
        using True Some blk by (simp add: choice_loop.simps[of i n])
      also have "\<dots> = (True \<or> positional_clicks (Suc i) (drop (Suc i) (choiceQuestions (page ?s'))) (drop (Suc i) ls) \<noteq> [],
          ?s'\<lparr>trace := trace ?s' @ concat (map click_round
           (positional_clicks (Suc i) (drop (Suc i) (choiceQuestions (page ?s'))) (drop (Suc i) ls)))\<rparr>)"
        by (rule "1.IH"(2)[OF True]) (use Some blk "1.prems" s' in simp_all)
      finally show ?thesis using Some by (simp add: dB dL s')
    qed
  qed
qed

lemma inputs_put [simp]: "put_inputs k (inputs_of k p) p = p"
  by (cases k) (simp_all add: put_inputs_def inputs_of_def)

lemma inputs_of_put [simp]: "inputs_of k (put_inputs k vs p) = vs"
  by (cases k) (simp_all add: put_inputs_def inputs_of_def)

lemma put_put [simp]: "put_inputs k vs (put_inputs k ws p) = put_inputs k vs p"
  by (cases k) (simp_all add: put_inputs_def)

lemma set_input_put:
  "set_input k i v p = put_inputs k ((inputs_of k p)[i := stored_value k v]) p"
  by (cases k) (simp_all add: set_input_def put_inputs_def inputs_of_def)

lemma fill_events_Nil2 [simp]: "fill_events k i vs [] = []"
  by (cases vs) simp_all

lemma fill_positional_Nil2 [simp]: "fill_positional k vs [] = vs"
  by (cases vs) simp_all

lemma fill_loop_quiescent:
  "env s = [] \<Longrightarrow> n = min (length (inputs_of k (page s))) (length ls) \<Longrightarrow>
   fill_loop k i n ls ans s =
     (ans \<or> fill_events k i (drop i (inputs_of k (page s))) (drop i ls) \<noteq> [],
      s\<lparr>page := put_inputs k
                  (take i (inputs_of k (page s))
                   @ fill_positional k (drop i (inputs_of k (page s))) (drop i ls)) (page s),
        trace := trace s @ fill_events k i (drop i (inputs_of k (page s))) (drop i ls)\<rparr>)"
proof (induction k i n ls ans s rule: fill_loop.induct)
  case (1 k i n ls ans s)
  let ?V = "inputs_of k (page s)"
  show ?case
  proof (cases "i < n")
    case False
    then have "drop i ?V = [] \<or> drop i ls = []" using "1.prems"(2) by auto
    then have "fill_events k i (drop i ?V) (drop i ls) = []
        \<and> take i ?V @ fill_positional k (drop i ?V) (drop i ls) = ?V" by auto
    then show ?thesis using False by (simp add: fill_loop.simps[of k i n])
  next
    case True
    then have iV: "i < length ?V" and iL: "i < length ls" using "1.prems"(2) by auto
    have dV: "drop i ?V = ?V ! i # drop (Suc i) ?V" using iV by (simp add: Cons_nth_drop_Suc)
    have dL: "drop i ls = ls ! i # drop (Suc i) ls" using iL by (simp add: Cons_nth_drop_Suc)
    have tV: "take (Suc i) ?V = take i ?V @ [?V ! i]" using iV by (simp add: take_Suc_conv_app_nth)
    show ?thesis
    proof (cases "?V ! i = []")
      case False
      then have ne: "\<not> input_empty k (page s) i" by (simp add: input_empty_def)
      have "fill_loop k i n ls ans s = fill_loop k (Suc i) n ls ans s"
        using True ne by (simp add: fill_loop.simps[of k i n])
      also have "\<dots> = (ans \<or> fill_events k (Suc i) (drop (Suc i) ?V) (drop (Suc i) ls) \<noteq> [],
          s\<lparr>page := put_inputs k (take (Suc i) ?V
                   @ fill_positional k (drop (Suc i) ?V) (drop (Suc i) ls)) (page s),
            trace := trace s @ fill_events k (Suc i) (drop (Suc i) ?V) (drop (Suc i) ls)\<rparr>)"
        using "1.IH"(2)[OF True ne] "1.prems" by simp
      finally show ?thesis using False by (simp add: dV dL tV)
    next
      case empty: True
      then have e: "input_empty k (page s) i" using iV by (simp add: input_empty_def)
      let ?l = "ls ! i"
      let ?s' = "sleep 200 200 (emit (Input_event k i) (emit (Set_value k i ?l)
                   (s\<lparr>page := set_input k i ?l (page s)\<rparr>)))"
      have s': "?s' = s\<lparr>page := put_inputs k (?V[i := stored_value k ?l]) (page s),
                        trace := trace s @ [Set_value k i ?l, Input_event k i, Sleep 200 200]\<rparr>"
        using "1.prems"(1) by (simp add: sleep_def env_step_def emit_def set_input_put)
      have V': "inputs_of k (page ?s') = ?V[i := stored_value k ?l]" by (simp add: s')
      have "fill_loop k i n ls ans s = fill_loop k (Suc i) n ls True ?s'"
        using True e by (simp add: fill_loop.simps[of k i n])
      also have "\<dots> = (True \<or> fill_events k (Suc i) (drop (Suc i) (inputs_of k (page ?s'))) (drop (Suc i) ls) \<noteq> [],
          ?s'\<lparr>page := put_inputs k (take (Suc i) (inputs_of k (page ?s'))
                   @ fill_positional k (drop (Suc i) (inputs_of k (page ?s'))) (drop (Suc i) ls)) (page ?s'),
            trace := trace ?s' @ fill_events k (Suc i) (drop (Suc i) (inputs_of k (page ?s'))) (drop (Suc i) ls)\<rparr>)"
        by (rule "1.IH"(1)[OF True e]) (use "1.prems" s' in simp_all)
      finally show ?thesis
        using empty iV by (simp add: dV dL V' s' take_Suc_conv_app_nth)
    qed
  qed
qed

section \<open>Letters as choices\<close>





lemma not_write_env: "is_env_event e \<Longrightarrow> \<not> is_write e" by (cases e) auto

lemma choice_loop_no_write:
  "\<exists>evs. trace (snd (choice_loop i n ls ans s)) = trace s @ evs \<and> list_all (\<lambda>e. \<not> is_write e) evs"
proof (induction i n ls ans s rule: choice_loop.induct)
  case (1 i n ls ans s)
  show ?case
  proof (cases "i < n")
    case False
    then show ?thesis by (simp add: choice_loop.simps[of i n])
  next
    case True
    show ?thesis
    proof (cases "find_option 0 (ls ! i) (block_at (page s) i)")
      case None
      then show ?thesis using "1.IH"(1)[OF True None] True by (simp add: choice_loop.simps[of i n])
    next
      case (Some j)
      let ?s' = "sleep 200 300 (robustClick (Option_el i j) s)"
      obtain e1 where e1: "trace ?s' = trace s @ Click (Option_el i j) # Sleep 200 300 # e1"
          "list_all is_env_event e1"
        using sleep_trace[of 200 300 "robustClick (Option_el i j) s"]
        by (auto simp: robustClick_def trace_emit)
      obtain e2 where e2: "trace (snd (choice_loop (Suc i) n ls True ?s')) = trace ?s' @ e2"
          "list_all (\<lambda>e. \<not> is_write e) e2"
        using "1.IH"(2)[OF True Some] by blast
      have nw: "list_all (\<lambda>e. \<not> is_write e) e1"
        using e1(2) not_write_env by (auto simp: list_all_iff)
      have "choice_loop i n ls ans s = choice_loop (Suc i) n ls True ?s'"
        using True Some by (simp add: choice_loop.simps[of i n])
      then show ?thesis using e1(1) e2 nw
        by (intro exI[of _ "Click (Option_el i j) # Sleep 200 300 # e1 @ e2"]) simp
    qed
  qed
qed






section \<open>Lines as free text\<close>

lemma not_click_env: "is_env_event e \<Longrightarrow> \<not> is_click e" by (cases e) auto

lemma fill_loop_no_click:
  "\<exists>evs. trace (snd (fill_loop k i n ls ans s)) = trace s @ evs \<and> list_all (\<lambda>e. \<not> is_click e) evs"
proof (induction k i n ls ans s rule: fill_loop.induct)
  case (1 k i n ls ans s)
  show ?case
  proof (cases "i < n")
    case False
    then show ?thesis by (simp add: fill_loop.simps[of k i n])
  next
    case True
    show ?thesis
    proof (cases "input_empty k (page s) i")
      case False
      then show ?thesis using "1.IH"(2)[OF True False] True by (simp add: fill_loop.simps[of k i n])
    next
      case e: True
      let ?l = "ls ! i"
      let ?s0 = "emit (Input_event k i) (emit (Set_value k i ?l) (s\<lparr>page := set_input k i ?l (page s)\<rparr>))"
      let ?s' = "sleep 200 200 ?s0"
      obtain e1 where e1: "trace ?s' = trace s @ Set_value k i ?l # Input_event k i # Sleep 200 200 # e1"
          "list_all is_env_event e1"
        using sleep_trace[of 200 200 ?s0] by (auto simp: trace_emit emit_def)
      obtain e2 where e2: "trace (snd (fill_loop k (Suc i) n ls True ?s')) = trace ?s' @ e2"
          "list_all (\<lambda>e. \<not> is_click e) e2"
        using "1.IH"(1)[OF True e] by blast
      have nc: "list_all (\<lambda>e. \<not> is_click e) e1"
        using e1(2) not_click_env by (auto simp: list_all_iff)
      have "fill_loop k i n ls ans s = fill_loop k (Suc i) n ls True ?s'"
        using True e by (simp add: fill_loop.simps[of k i n])
      then show ?thesis using e1(1) e2 nc
        by (intro exI[of _ "Set_value k i ?l # Input_event k i # Sleep 200 200 # e1 @ e2"]) simp
    qed
  qed
qed

lemma trim_dropWhile: "trim (dropWhile is_ws x) = trim x"
  by (simp add: trim_def)










section \<open>Answering the same view twice\<close>

lemma click_rounds_empty: "(\<exists>t\<in>set cs. click_round t \<noteq> []) \<longleftrightarrow> cs \<noteq> []"
  by (cases cs) (auto simp: click_round_def)

lemma answer_choice:
  assumes "choiceQuestions p \<noteq> []" "test_letters (trim a)"
  shows "answer_events (AString a) p
           = concat (map click_round (positional_clicks 0 (choiceQuestions p) (remove_ws (trim a))))"
    and "answer_page (AString a) p = p"
  using assms by (simp_all add: answer_events_def answer_page_def)

lemma answer_areas:
  assumes "\<not> (choiceQuestions p \<noteq> [] \<and> test_letters (trim a))" "textInputs p \<noteq> []"
  shows "answer_events (AString a) p = fill_events TextInput 0 (textInputs p) (answer_lines a)"
    and "answer_page (AString a) p
           = p\<lparr>textInputs := fill_positional TextInput (textInputs p) (answer_lines a)\<rparr>"
proof -
  have c: "(choiceQuestions p \<noteq> [] \<and> test_letters (trim a)) = False" using assms(1) by blast
  show "answer_events (AString a) p = fill_events TextInput 0 (textInputs p) (answer_lines a)"
    unfolding answer_events_def answer.case c using assms(2) by simp
  show "answer_page (AString a) p
           = p\<lparr>textInputs := fill_positional TextInput (textInputs p) (answer_lines a)\<rparr>"
    unfolding answer_page_def answer.case c using assms(2) by simp
qed

lemma answer_blanks:
  assumes "\<not> (choiceQuestions p \<noteq> [] \<and> test_letters (trim a))" "textInputs p = []"
    "fillInBlanks p \<noteq> []"
  shows "answer_events (AString a) p
           = fill_events FillInBlank 0 (fillInBlanks p) (answer_lines a)"
    and "answer_page (AString a) p
           = p\<lparr>fillInBlanks := fill_positional FillInBlank (fillInBlanks p) (answer_lines a)\<rparr>"
proof -
  have c: "(choiceQuestions p \<noteq> [] \<and> test_letters (trim a)) = False" using assms(1) by blast
  have t: "(textInputs p \<noteq> []) = False" using assms(2) by simp
  show "answer_events (AString a) p
           = fill_events FillInBlank 0 (fillInBlanks p) (answer_lines a)"
    unfolding answer_events_def answer.case c t using assms(3) by simp
  show "answer_page (AString a) p
           = p\<lparr>fillInBlanks := fill_positional FillInBlank (fillInBlanks p) (answer_lines a)\<rparr>"
    unfolding answer_page_def answer.case c t using assms(3) by simp
qed

lemma answer_none:
  assumes "\<not> (choiceQuestions p \<noteq> [] \<and> test_letters (trim a))" "textInputs p = []"
    "fillInBlanks p = []"
  shows "answer_events (AString a) p = []" and "answer_page (AString a) p = p"
proof -
  have c: "(choiceQuestions p \<noteq> [] \<and> test_letters (trim a)) = False" using assms(1) by blast
  have t: "(textInputs p \<noteq> []) = False" "(fillInBlanks p \<noteq> []) = False"
    using assms(2,3) by simp_all
  show "answer_events (AString a) p = []"
    unfolding answer_events_def answer.case c t by simp
  show "answer_page (AString a) p = p"
    unfolding answer_page_def answer.case c t by simp
qed


lemma apply_answers_quiescent:
  assumes q: "env s = []"
  shows "apply_answers ans s
           = (answer_events ans (page s) \<noteq> [],
              s\<lparr>page := answer_page ans (page s),
                trace := trace s @ answer_events ans (page s)\<rparr>)"
proof (cases ans)
  case AOther
  then show ?thesis by (simp add: apply_answers_def answer_events_def answer_page_def)
next
  case (AString a)
  let ?p = "page s"
  consider (choice) "choiceQuestions ?p \<noteq> []" "test_letters (trim a)"
    | (areas) "\<not> (choiceQuestions ?p \<noteq> [] \<and> test_letters (trim a))" "textInputs ?p \<noteq> []"
    | (blanks) "\<not> (choiceQuestions ?p \<noteq> [] \<and> test_letters (trim a))" "textInputs ?p = []"
        "fillInBlanks ?p \<noteq> []"
    | (none) "\<not> (choiceQuestions ?p \<noteq> [] \<and> test_letters (trim a))" "textInputs ?p = []"
        "fillInBlanks ?p = []"
    by blast
  then have "apply_answers (AString a) s
           = (answer_events (AString a) ?p \<noteq> [],
              s\<lparr>page := answer_page (AString a) ?p,
                trace := trace s @ answer_events (AString a) ?p\<rparr>)"
  proof cases
    case choice
    let ?L = "remove_ws (trim a)"
    have 1: "apply_answers (AString a) s
        = choice_loop 0 (min (length (choiceQuestions ?p)) (length ?L)) ?L False s"
      using choice by (simp add: apply_answers_def Let_def)
    have 2: "choice_loop 0 (min (length (choiceQuestions ?p)) (length ?L)) ?L False s
        = (positional_clicks 0 (choiceQuestions ?p) ?L \<noteq> [],
           s\<lparr>trace := trace s
               @ concat (map click_round (positional_clicks 0 (choiceQuestions ?p) ?L))\<rparr>)"
      using choice_loop_quiescent[of s "min (length (choiceQuestions ?p)) (length ?L)" ?L 0 False]
        q
      by simp
    have 3: "(concat (map click_round (positional_clicks 0 (choiceQuestions ?p) ?L)) \<noteq> [])
               = (positional_clicks 0 (choiceQuestions ?p) ?L \<noteq> [])"
      by (simp add: click_rounds_empty)
    have 4: "s\<lparr>page := ?p, trace := trace s
               @ concat (map click_round (positional_clicks 0 (choiceQuestions ?p) ?L))\<rparr>
             = s\<lparr>trace := trace s
               @ concat (map click_round (positional_clicks 0 (choiceQuestions ?p) ?L))\<rparr>"
      by simp
    show ?thesis
      by (simp only: 1 2 answer_choice[OF choice] 3 4)
  next
    case areas
    let ?L = "answer_lines a"
    have 1: "apply_answers (AString a) s
        = fill_loop TextInput 0 (min (length (textInputs ?p)) (length ?L)) ?L False s"
      using areas by (auto simp: apply_answers_def Let_def)
    have 2: "fill_loop TextInput 0 (min (length (textInputs ?p)) (length ?L)) ?L False s
        = (fill_events TextInput 0 (textInputs ?p) ?L \<noteq> [],
           s\<lparr>page := ?p\<lparr>textInputs := fill_positional TextInput (textInputs ?p) ?L\<rparr>,
             trace := trace s @ fill_events TextInput 0 (textInputs ?p) ?L\<rparr>)"
      using fill_loop_quiescent[of s "min (length (textInputs ?p)) (length ?L)" TextInput ?L 0 False]
        q
      by (simp add: inputs_of_def put_inputs_def)
    show ?thesis
      by (simp only: 1 2 answer_areas[OF areas])
  next
    case blanks
    let ?L = "answer_lines a"
    have 1: "apply_answers (AString a) s
        = fill_loop FillInBlank 0 (min (length (fillInBlanks ?p)) (length ?L)) ?L False s"
      using blanks by (auto simp: apply_answers_def Let_def)
    have 2: "fill_loop FillInBlank 0 (min (length (fillInBlanks ?p)) (length ?L)) ?L False s
        = (fill_events FillInBlank 0 (fillInBlanks ?p) ?L \<noteq> [],
           s\<lparr>page := ?p\<lparr>fillInBlanks := fill_positional FillInBlank (fillInBlanks ?p) ?L\<rparr>,
             trace := trace s @ fill_events FillInBlank 0 (fillInBlanks ?p) ?L\<rparr>)"
      using fill_loop_quiescent[of s "min (length (fillInBlanks ?p)) (length ?L)" FillInBlank ?L 0 False]
        q
      by (simp add: inputs_of_def put_inputs_def)
    show ?thesis
      by (simp only: 1 2 answer_blanks[OF blanks])
  next
    case none
    have 1: "apply_answers (AString a) s = (False, s)"
      using none by (auto simp: apply_answers_def Let_def)
    have 2: "s\<lparr>page := ?p, trace := trace s @ []\<rparr> = s" by simp
    show ?thesis
      by (simp only: 1 answer_none[OF none] 2) simp
  qed
  then show ?thesis using AString by simp
qed


lemma fill_nothing: "fill_events k i vs ls = [] \<Longrightarrow> fill_positional k vs ls = vs"
  by (induction k i vs ls rule: fill_events.induct) (auto split: if_splits)

lemma answer_page_idle: "answer_events ans p = [] \<Longrightarrow> answer_page ans p = p"
proof (cases ans)
  case AOther
  then show ?thesis by (simp add: answer_page_def)
next
  case (AString a)
  assume e: "answer_events ans p = []"
  show ?thesis
  proof (cases "choiceQuestions p \<noteq> [] \<and> test_letters (trim a)")
    case True
    then show ?thesis using AString answer_choice(2)[of p a] by simp
  next
    case nc: False
    show ?thesis
    proof (cases "textInputs p \<noteq> []")
      case True
      have "fill_events TextInput 0 (textInputs p) (answer_lines a) = []"
        using e AString answer_areas(1)[OF nc True] by simp
      then have "fill_positional TextInput (textInputs p) (answer_lines a) = textInputs p"
        by (rule fill_nothing)
      then show ?thesis using AString answer_areas(2)[OF nc True] by simp
    next
      case False
      then have nt: "textInputs p = []" by simp
      show ?thesis
      proof (cases "fillInBlanks p \<noteq> []")
        case True
        have "fill_events FillInBlank 0 (fillInBlanks p) (answer_lines a) = []"
          using e AString answer_blanks(1)[OF nc nt True] by simp
        then have "fill_positional FillInBlank (fillInBlanks p) (answer_lines a) = fillInBlanks p"
          by (rule fill_nothing)
        then show ?thesis using AString answer_blanks(2)[OF nc nt True] by simp
      next
        case False
        then have "fillInBlanks p = []" by simp
        then show ?thesis using AString answer_none(2)[OF nc nt] by simp
      qed
    qed
  qed
qed

lemma answer_page_view:
  "mainTaskContent_of (answer_page ans p) = mainTaskContent_of p"
  "activeSubTaskName_of (answer_page ans p) = activeSubTaskName_of p"
  by (auto simp: answer_page_def mainTaskContent_of_def activeSubTaskName_of_def Let_def
           split: answer.splits option.splits)

text \<open>What \<open>getPageContextAndAnswers\<close> reads, and what it leaves.\<close>

lemma context_state:
  "\<exists>evs. snd (getPageContextAndAnswers s) = s\<lparr>trace := trace s @ evs\<rparr>
       \<and> list_all is_env_event evs"
proof -
  have "snd (getPageContextAndAnswers s) = s \<or> (\<exists>l m. snd (getPageContextAndAnswers s) = log_js l m s)"
    by (auto simp: getPageContextAndAnswers_def Let_def split: option.splits)
  then show ?thesis
  proof
    assume "snd (getPageContextAndAnswers s) = s"
    then show ?thesis by (intro exI[of _ "[]"]) simp
  next
    assume "\<exists>l m. snd (getPageContextAndAnswers s) = log_js l m s"
    then obtain l m where "snd (getPageContextAndAnswers s) = log_js l m s" by blast
    then show ?thesis by (intro exI[of _ "[Log l m]"]) (simp add: log_js_def emit_def)
  qed
qed

lemma context_retraced:
  "getPageContextAndAnswers (s\<lparr>trace := t\<rparr>)
     = (fst (getPageContextAndAnswers s),
        (snd (getPageContextAndAnswers s))
          \<lparr>trace := t @ new_events s (snd (getPageContextAndAnswers s))\<rparr>)"
  by (auto simp: getPageContextAndAnswers_def Let_def log_js_def emit_def new_events_def
           split: option.splits)

lemma context_answered:
  assumes c: "fst (getPageContextAndAnswers s) = Ctx a l n"
    and v: "mainTaskContent_of (page s') = mainTaskContent_of (page s)"
           "activeSubTaskName_of (page s') = activeSubTaskName_of (page s)"
    and k: "lastAnsweredSubTask s' = dedup_key l n"
  shows "getPageContextAndAnswers s' = (Ctx_answered, s')"
proof -
  have t: "truthy (mainTaskContent_of (page s))"
    using c by (auto simp: getPageContextAndAnswers_def Let_def split: option.splits if_splits)
  obtain u where u: "unit_id_match (the (mainTaskContent_of (page s))) = Some u"
    using c t by (auto simp: getPageContextAndAnswers_def Let_def split: option.splits if_splits)
  have ln: "l = the (mainTaskContent_of (page s))" "n = activeSubTaskName_of (page s)"
    using c t u by (auto simp: getPageContextAndAnswers_def Let_def split: option.splits if_splits)
  show ?thesis
    using t u ln v k by (simp add: getPageContextAndAnswers_def Let_def)
qed


lemma env_not_action: "is_env_event e \<Longrightarrow> \<not> is_action e"
  by (cases e) (auto simp: is_action_def)

lemma doAnswer_loaded:
  "QUESTION_BANK s \<noteq> [] \<Longrightarrow>
   doAnswer s =
     (case fst (getPageContextAndAnswers s) of
        Ctx_null \<Rightarrow> snd (getPageContextAndAnswers s)
      | Ctx_answered \<Rightarrow> snd (getPageContextAndAnswers s)
      | Ctx answers mainTaskContent activeSubTaskName \<Rightarrow>
          if fst (apply_answers answers (snd (getPageContextAndAnswers s))) then
            (log_js Success (Msg_applied activeSubTaskName)
               (snd (apply_answers answers (snd (getPageContextAndAnswers s)))))
              \<lparr>lastAnsweredSubTask := dedup_key mainTaskContent activeSubTaskName\<rparr>
          else snd (apply_answers answers (snd (getPageContextAndAnswers s))))"
  by (simp add: doAnswer_def split: prod.splits page_context.splits)

text \<open>
  With nothing else happening, a run of \<open>doAnswer\<close> either changes nothing but the trace,
  to which it adds no click and no write, or it answers, and then a second run is stopped by
  the key of the answered view.
\<close>

lemma doAnswer_idle_or_answered:
  assumes q: "env s = []"
  shows "(\<exists>evs. doAnswer s = s\<lparr>trace := trace s @ evs\<rparr> \<and> list_all (\<lambda>e. \<not> is_action e) evs)
       \<or> doAnswer (doAnswer s) = doAnswer s"
proof (cases "QUESTION_BANK s = []")
  case True
  have "doAnswer s = s\<lparr>trace := trace s
          @ [Log Warn Msg_bank_empty, Sleep 3000 3000, Log Error Msg_bank_failed]\<rparr>"
    using True q by (simp add: doAnswer_def sleep_quiescent log_js_def emit_def)
  then show ?thesis by (auto simp: is_action_def)
next
  case loaded: False
  let ?c = "fst (getPageContextAndAnswers s)"
  let ?s2 = "snd (getPageContextAndAnswers s)"
  obtain g where g: "?s2 = s\<lparr>trace := trace s @ g\<rparr>" "list_all is_env_event g"
    using context_state by blast
  have gn: "list_all (\<lambda>e. \<not> is_action e) g"
    using g(2) env_not_action by (auto simp: list_all_iff)
  show ?thesis
  proof (cases ?c)
    case Ctx_null
    then have "doAnswer s = ?s2" using loaded by (simp add: doAnswer_loaded)
    then show ?thesis using g(1) gn by auto
  next
    case Ctx_answered
    then have "doAnswer s = ?s2" using loaded by (simp add: doAnswer_loaded)
    then show ?thesis using g(1) gn by auto
  next
    case (Ctx a l n)
    let ?E = "answer_events a (page s)"
    let ?P = "answer_page a (page s)"
    have q2: "env ?s2 = []" using g(1) q by simp
    have ap: "apply_answers a ?s2 = (?E \<noteq> [], s\<lparr>page := ?P, trace := trace s @ g @ ?E\<rparr>)"
      using apply_answers_quiescent[OF q2, of a] g(1) by simp
    show ?thesis
    proof (cases "?E = []")
      case True
      then have "doAnswer s = s\<lparr>trace := trace s @ g\<rparr>"
        using loaded Ctx ap answer_page_idle[OF True] by (simp add: doAnswer_loaded)
      then show ?thesis using gn by auto
    next
      case False
      let ?s1 = "s\<lparr>page := ?P, trace := trace s @ g @ ?E @ [Log Success (Msg_applied n)],
                    lastAnsweredSubTask := dedup_key l n\<rparr>"
      have d: "doAnswer s = ?s1"
        using loaded Ctx ap False by (simp add: doAnswer_loaded log_js_def emit_def)
      have "getPageContextAndAnswers ?s1 = (Ctx_answered, ?s1)"
        by (rule context_answered[OF Ctx]) (simp_all add: answer_page_view)
      moreover have "QUESTION_BANK ?s1 \<noteq> []" using loaded by simp
      ultimately have "doAnswer ?s1 = ?s1" by (simp add: doAnswer_loaded)
      then show ?thesis using d by simp
    qed
  qed
qed

lemma doAnswer_retraced:
  assumes q: "env s = []"
  shows "doAnswer (s\<lparr>trace := t\<rparr>) = (doAnswer s)\<lparr>trace := t @ new_events s (doAnswer s)\<rparr>"
proof (cases "QUESTION_BANK s = []")
  case True
  then show ?thesis
    using q by (simp add: doAnswer_def sleep_quiescent log_js_def emit_def new_events_def)
next
  case loaded: False
  let ?c = "fst (getPageContextAndAnswers s)"
  let ?s2 = "snd (getPageContextAndAnswers s)"
  let ?st = "s\<lparr>trace := t\<rparr>"
  obtain g where g: "?s2 = s\<lparr>trace := trace s @ g\<rparr>"
    using context_state by blast
  have ng: "new_events s ?s2 = g" by (simp add: g new_events_def)
  have ct: "fst (getPageContextAndAnswers ?st) = ?c"
      "snd (getPageContextAndAnswers ?st) = s\<lparr>trace := t @ g\<rparr>"
    by (simp_all add: context_retraced ng) (simp add: g)
  have lt: "QUESTION_BANK ?st \<noteq> []" using loaded by simp
  show ?thesis
  proof (cases ?c)
    case Ctx_null
    then show ?thesis
      using loaded by (simp add: doAnswer_loaded[OF lt] doAnswer_loaded[OF loaded] ct g new_events_def)
  next
    case Ctx_answered
    then show ?thesis
      using loaded by (simp add: doAnswer_loaded[OF lt] doAnswer_loaded[OF loaded] ct g new_events_def)
  next
    case (Ctx a l n)
    let ?E = "answer_events a (page s)"
    let ?P = "answer_page a (page s)"
    have ap: "apply_answers a (s\<lparr>trace := trace s @ g\<rparr>)
                = (?E \<noteq> [], s\<lparr>page := ?P, trace := trace s @ g @ ?E\<rparr>)"
      using apply_answers_quiescent[of "s\<lparr>trace := trace s @ g\<rparr>" a] q by simp
    have apt: "apply_answers a (s\<lparr>trace := t @ g\<rparr>)
                = (?E \<noteq> [], s\<lparr>page := ?P, trace := t @ g @ ?E\<rparr>)"
      using apply_answers_quiescent[of "s\<lparr>trace := t @ g\<rparr>" a] q by simp
    show ?thesis
      using Ctx
      by (simp add: doAnswer_loaded[OF lt] doAnswer_loaded[OF loaded] ct g ap apt
            new_events_def log_js_def emit_def)
  qed
qed

lemma doAnswer_twice_quiescent:
  assumes q: "env s = []"
  shows "\<exists>evs. doAnswer (doAnswer s) = (doAnswer s)\<lparr>trace := trace (doAnswer s) @ evs\<rparr>
           \<and> list_all (\<lambda>e. \<not> is_click e \<and> \<not> is_write e) evs"
proof -
  from doAnswer_idle_or_answered[OF q]
  show ?thesis
  proof
    assume "\<exists>evs. doAnswer s = s\<lparr>trace := trace s @ evs\<rparr> \<and> list_all (\<lambda>e. \<not> is_action e) evs"
    then obtain evs where e: "doAnswer s = s\<lparr>trace := trace s @ evs\<rparr>"
        "list_all (\<lambda>e. \<not> is_action e) evs"
      by blast
    have n: "new_events s (doAnswer s) = evs" by (simp add: e(1) new_events_def)
    have "doAnswer (doAnswer s) = doAnswer (s\<lparr>trace := trace s @ evs\<rparr>)"
      by (simp add: e(1)[symmetric])
    also have "\<dots> = (doAnswer s)\<lparr>trace := (trace s @ evs) @ evs\<rparr>"
      by (simp only: doAnswer_retraced[OF q] n)
    also have "\<dots> = (doAnswer s)\<lparr>trace := trace (doAnswer s) @ evs\<rparr>"
      by (simp add: e(1))
    finally show ?thesis
      using e(2) by (intro exI[of _ evs]) (simp add: is_action_def list_all_iff)
  next
    assume "doAnswer (doAnswer s) = doAnswer s"
    then show ?thesis by (intro exI[of _ "[]"]) simp
  qed
qed

text \<open>
  The guard of line 207 by itself, whatever happened before: when the bank is loaded, the
  label of the page can be read, and the recorded key is the key of the view now shown,
  \<open>doAnswer\<close> returns without doing anything.
\<close>

lemma answered_view_skipped:
  assumes "QUESTION_BANK s \<noteq> []" "mainTaskContent_of (page s) = Some l" "l \<noteq> []"
    "unit_id_match l \<noteq> None"
    "lastAnsweredSubTask s = dedup_key l (activeSubTaskName_of (page s))"
  shows "doAnswer s = s"
proof -
  obtain u where "unit_id_match l = Some u"
    using assms(4) by blast
  then have "getPageContextAndAnswers s = (Ctx_answered, s)"
    using assms(2,3,5) by (simp add: getPageContextAndAnswers_def Let_def truthy_def)
  then show ?thesis
    using assms(1) by (simp add: doAnswer_loaded)
qed

text \<open>
  Claim C4.  When \<open>doAnswer\<close> is invoked twice in a row on the same view, with nothing else
  happening in between or during the waits, the second invocation leaves the page, the key
  of the answered view, the bank and the flags as the first invocation left them; it adds
  to the trace only events that are neither clicks nor writes (log lines, and the wait for
  the bank).  And whatever the page did in answer to the first invocation, an invocation
  that finds the recorded key to be the key of the view it is shown returns the state as it
  is.
\<close>

theorem doAnswer_twice:
  "(env s = [] \<longrightarrow>
      (\<exists>evs. doAnswer (doAnswer s) = (doAnswer s)\<lparr>trace := trace (doAnswer s) @ evs\<rparr>
           \<and> list_all (\<lambda>e. \<not> is_click e \<and> \<not> is_write e) evs))
   \<and> (QUESTION_BANK s1 \<noteq> [] \<and> mainTaskContent_of (page s1) = Some l \<and> l \<noteq> []
        \<and> unit_id_match l \<noteq> None
        \<and> lastAnsweredSubTask s1 = dedup_key l (activeSubTaskName_of (page s1)) \<longrightarrow>
      doAnswer s1 = s1)"
  using doAnswer_twice_quiescent [of s] answered_view_skipped [of s1 l] by blast

text \<open>
  Two runs: a view with five choice questions, answered by the first invocation and left
  alone by the second; and a page for which the bank is empty, where both invocations only
  log and wait.
\<close>

theorem doAnswer_twice_witness:
  "env five_choices_state = []
   \<and> (\<exists>evs. doAnswer (doAnswer five_choices_state)
               = (doAnswer five_choices_state)\<lparr>trace := trace (doAnswer five_choices_state) @ evs\<rparr>
            \<and> list_all (\<lambda>e. \<not> is_click e \<and> \<not> is_write e) evs)
   \<and> filter is_click (trace (doAnswer five_choices_state))
       = [Click (Option_el 0 0), Click (Option_el 1 1), Click (Option_el 2 0),
          Click (Option_el 3 1), Click (Option_el 4 0)]
   \<and> QUESTION_BANK (doAnswer five_choices_state) \<noteq> []
   \<and> mainTaskContent_of (page (doAnswer five_choices_state))
       = Some ''1-2 iExplore 1: Learning before class''
   \<and> unit_id_match ''1-2 iExplore 1: Learning before class'' \<noteq> None
   \<and> lastAnsweredSubTask (doAnswer five_choices_state)
       = dedup_key ''1-2 iExplore 1: Learning before class''
           (activeSubTaskName_of (page (doAnswer five_choices_state)))
   \<and> doAnswer (doAnswer five_choices_state) = doAnswer five_choices_state
   \<and> env started_state = []
   \<and> (\<exists>evs. doAnswer (doAnswer started_state)
               = (doAnswer started_state)\<lparr>trace := trace (doAnswer started_state) @ evs\<rparr>
            \<and> list_all (\<lambda>e. \<not> is_click e \<and> \<not> is_write e) evs)
   \<and> new_events (doAnswer started_state) (doAnswer (doAnswer started_state))
       = [Log Warn Msg_bank_empty, Sleep 3000 3000, Log Error Msg_bank_failed]"
proof -
  have h1: "env five_choices_state = []" by code_simp
  have h2: "env started_state = []" by code_simp
  have c1: "filter is_click (trace (doAnswer five_choices_state))
       = [Click (Option_el 0 0), Click (Option_el 1 1), Click (Option_el 2 0),
          Click (Option_el 3 1), Click (Option_el 4 0)]" by code_simp
  have g: "QUESTION_BANK (doAnswer five_choices_state) \<noteq> []
      \<and> mainTaskContent_of (page (doAnswer five_choices_state))
          = Some ''1-2 iExplore 1: Learning before class''
      \<and> unit_id_match ''1-2 iExplore 1: Learning before class'' \<noteq> None
      \<and> lastAnsweredSubTask (doAnswer five_choices_state)
          = dedup_key ''1-2 iExplore 1: Learning before class''
              (activeSubTaskName_of (page (doAnswer five_choices_state)))" by code_simp
  have ne: "''1-2 iExplore 1: Learning before class'' \<noteq> []" by simp
  have c3: "new_events (doAnswer started_state) (doAnswer (doAnswer started_state))
       = [Log Warn Msg_bank_empty, Sleep 3000 3000, Log Error Msg_bank_failed]" by code_simp
  note a = doAnswer_twice [of five_choices_state "doAnswer five_choices_state"
             "''1-2 iExplore 1: Learning before class''"]
  note b = doAnswer_twice [of started_state "doAnswer five_choices_state"
             "''1-2 iExplore 1: Learning before class''"]
  have c2: "doAnswer (doAnswer five_choices_state) = doAnswer five_choices_state"
    using a g ne by blast
  show ?thesis using a b h1 h2 c1 g c2 c3 by blast
qed

section \<open>The video handler\<close>

text \<open>
  The promise of the handler is only ever resolved with true, and without a video element
  the handler returns true at once.
\<close>

lemma video_never_fails: "handleVideoTask s = Some (r, s') \<Longrightarrow> r"
  by (auto simp: handleVideoTask_def Let_def split: option.splits if_splits)

lemma video_absent: "video (page s) = None \<Longrightarrow> handleVideoTask s = Some (True, s)"
  by (simp add: handleVideoTask_def)

lemma awaited_trace:
  "\<exists>evs. trace (awaited t s) = trace s @ Awaited t # evs \<and> list_all is_env_event evs"
  using env_step_trace[of "emit (Awaited t) s"] by (auto simp: awaited_def emit_def)

text \<open>
  Before the video can play, the listener and the timer are both set: the promise is
  resolved with true, after at most 5000 ms.
\<close>

lemma video_not_ready:
  assumes "video (page s) = Some v" "readyState v < 2"
  shows "\<exists>s' t evs. handleVideoTask s = Some (True, s') \<and> t \<le> 5000
           \<and> trace s' = trace s @ Log Info Msg_video # Awaited t # evs"
proof -
  have w: "\<exists>evs. trace (awaited t (set_video x (log_js Info Msg_video s)))
              = trace s @ Log Info Msg_video # Awaited t # evs" for t x
    using awaited_trace[of t "set_video x (log_js Info Msg_video s)"]
    by (auto simp: set_video_def log_js_def emit_def)
  have f: "\<And>t x rj. \<exists>evs. trace (onCanPlay_finish rj (awaited t (set_video x (log_js Info Msg_video s))))
              = trace s @ Log Info Msg_video # Awaited t # evs"
  proof -
    fix t x rj
    obtain evs where "trace (awaited t (set_video x (log_js Info Msg_video s)))
              = trace s @ Log Info Msg_video # Awaited t # evs" using w by blast
    then show "\<exists>evs. trace (onCanPlay_finish rj (awaited t (set_video x (log_js Info Msg_video s))))
              = trace s @ Log Info Msg_video # Awaited t # evs"
      by (cases rj) (simp_all add: onCanPlay_finish_def log_js_def emit_def)
  qed
  show ?thesis
  proof (cases "canplay_after v")
    case None
    then show ?thesis using assms w[of 5000] 
      by (fastforce simp: handleVideoTask_def Let_def)
  next
    case (Some c)
    show ?thesis
    proof (cases "c < 5000")
      case False
      then show ?thesis using assms Some w[of 5000]
        by (fastforce simp: handleVideoTask_def Let_def)
    next
      case True
      show ?thesis
      proof (cases "play_settles (play_promise v)")
        case None
        then show ?thesis using assms Some True w[of 5000]
          by (fastforce simp: handleVideoTask_def Let_def)
      next
        case (Some tr)
        obtain t rj where tr: "tr = (t, rj)" by (cases tr)
        show ?thesis
        proof (cases "c + t < 5000")
          case True
          let ?s' = "onCanPlay_finish rj
                       (awaited (c + t)
                         (set_video (onCanPlay_start (v\<lparr>muted := True\<rparr>))
                           (log_js Info Msg_video s)))"
          have hv: "handleVideoTask s = Some (True, ?s')"
            using assms \<open>canplay_after v = Some c\<close> \<open>c < 5000\<close> Some tr True
            by (simp add: handleVideoTask_def Let_def)
          obtain evs where "trace ?s' = trace s @ Log Info Msg_video # Awaited (c + t) # evs"
            using f[of rj "c + t" "onCanPlay_start (v\<lparr>muted := True\<rparr>)"] by blast
          with hv True show ?thesis
            by (intro exI[of _ ?s'] exI[of _ "c + t"] exI[of _ evs]) simp
        next
          case False
          then show ?thesis using assms \<open>canplay_after v = Some c\<close> \<open>c < 5000\<close> Some tr w[of 5000]
            by (fastforce simp: handleVideoTask_def Let_def)
        qed
      qed
    qed
  qed
qed

text \<open>
  Once the video can play, the executor awaits \<open>onCanPlay()\<close> before it sets the timer: the
  promise is resolved when, and only when, the promise of \<open>play()\<close> settles.
\<close>

lemma video_ready:
  assumes "video (page s) = Some v" "2 \<le> readyState v"
  shows "handleVideoTask s =
           (case play_settles (play_promise v) of
              None \<Rightarrow> None
            | Some (t, rejected) \<Rightarrow>
                Some (True,
                  onCanPlay_finish rejected
                    (awaited t
                      (set_video
                        (v\<lparr>muted := True, currentTime := seek_time (duration v),
                           play_called := True\<rparr>)
                        (log_js Info Msg_video s)))))"
  using assms by (simp add: handleVideoTask_def Let_def onCanPlay_start_def split: option.splits)

text \<open>
  Claim C8 says that the handler resolves when the seek-and-play sequence completes or when
  the ceiling of 5000 ms elapses, whichever comes first.  That holds while the video cannot
  play yet (\<open>video_not_ready\<close>).  For a video that can already play the timer is set only
  after \<open>onCanPlay()\<close> has been awaited (\<open>video_ready\<close>), so there is no ceiling: with a
  promise of \<open>play()\<close> that stays pending the handler never resolves, and neither does
  \<open>main\<close>; with one that settles after 9000 ms the handler resolves after 9000 ms.  The
  last conjunct is the sibling path: a video that never reports that it can play is given
  up after 5000 ms.
\<close>

theorem video_ceiling_not_armed:
  "readyState (ready_video Play_pending) = 4
   \<and> handleVideoTask (video_state Play_pending) = None
   \<and> main (video_state Play_pending) = None
   \<and> map_option (\<lambda>r. (fst r, new_events (video_state (Play_resolves 9000)) (snd r)))
        (handleVideoTask (video_state (Play_resolves 9000)))
       = Some (True, [Log Info Msg_video, Awaited 9000, Log Success Msg_video_done])
   \<and> map_option (\<lambda>r. (fst r, new_events loading_video_state (snd r)))
        (handleVideoTask loading_video_state)
       = Some (True, [Log Info Msg_video, Awaited 5000])"
  by code_simp

section \<open>The whole invocation\<close>

text \<open>Nothing the script does removes an event: every procedure only adds to the trace.\<close>

lemma grows_refl: "grows s s"
  by (simp add: grows_def)

lemma grows_trans: "grows s s' \<Longrightarrow> grows s' s'' \<Longrightarrow> grows s s''"
  by (auto simp: grows_def)

lemma grows_retrace: "trace s' = trace s \<Longrightarrow> grows s s'"
  by (simp add: grows_def)

lemma grows_emit: "grows s (emit e s)"
  by (simp add: grows_def emit_def)

lemma grows_log: "grows s (log_js l m s)"
  by (simp add: log_js_def grows_emit)

lemma grows_click: "grows s (robustClick t s)"
  by (simp add: robustClick_def grows_emit)

lemma grows_sleep: "grows s (sleep lo hi s)"
  using sleep_trace[of lo hi s] by (auto simp: grows_def)

lemma grows_awaited: "grows s (awaited t s)"
  using awaited_trace[of t s] by (auto simp: grows_def)

lemma grows_toggle: "grows s (toggleAutomation s)"
  using toggle_trace[of s] by (auto simp: grows_def)

lemma grows_context: "grows s (snd (getPageContextAndAnswers s))"
  using context_state[of s] by (auto simp: grows_def)

lemma grows_choice_loop: "grows s (snd (choice_loop i n ls ans s))"
  using choice_loop_no_write[of i n ls ans s] by (auto simp: grows_def)

lemma grows_fill_loop: "grows s (snd (fill_loop k i n ls ans s))"
  using fill_loop_no_click[of k i n ls ans s] by (auto simp: grows_def)

lemma grows_apply_answers: "grows s (snd (apply_answers a s))"
  by (cases a)
     (simp_all add: apply_answers_def Let_def grows_refl grows_choice_loop grows_fill_loop)

lemma grows_answer_body:
  "grows x
     (case getPageContextAndAnswers x of
        (Ctx_null, s2) \<Rightarrow> s2
      | (Ctx_answered, s2) \<Rightarrow> s2
      | (Ctx answers mainTaskContent activeSubTaskName, s2) \<Rightarrow>
          (case apply_answers answers s2 of
             (answered, s3) \<Rightarrow>
               if answered then
                 (log_js Success (Msg_applied activeSubTaskName) s3)
                   \<lparr>lastAnsweredSubTask := dedup_key mainTaskContent activeSubTaskName\<rparr>
               else s3))"
proof -
  obtain c s2 where g: "getPageContextAndAnswers x = (c, s2)"
    by (cases "getPageContextAndAnswers x")
  have 2: "grows x s2" using grows_context[of x] g by simp
  show ?thesis
  proof (cases c)
    case Ctx_null
    then show ?thesis using g 2 by simp
  next
    case Ctx_answered
    then show ?thesis using g 2 by simp
  next
    case (Ctx a l n)
    obtain answered s3 where ap: "apply_answers a s2 = (answered, s3)"
      by (cases "apply_answers a s2")
    have 3: "grows s2 s3" using grows_apply_answers[of s2 a] ap by simp
    have 4: "grows s3 ((log_js Success (Msg_applied n) s3)\<lparr>lastAnsweredSubTask := dedup_key l n\<rparr>)"
      by (simp add: grows_def log_js_def emit_def)
    have "grows x s3" using 2 3 by (rule grows_trans)
    moreover have "grows x ((log_js Success (Msg_applied n) s3)
                              \<lparr>lastAnsweredSubTask := dedup_key l n\<rparr>)"
      using grows_trans[OF 2 grows_trans[OF 3 4]] .
    ultimately show ?thesis using g Ctx ap by simp
  qed
qed

lemma grows_doAnswer: "grows s (doAnswer s)"
proof -
  let ?s1 = "if QUESTION_BANK s = [] then sleep 3000 3000 (log_js Warn Msg_bank_empty s) else s"
  have 1: "grows s ?s1"
    using grows_trans[OF grows_log grows_sleep] by (simp add: grows_refl)
  have "grows ?s1 (doAnswer s)"
  proof (cases "QUESTION_BANK ?s1 = []")
    case True
    then have "doAnswer s = log_js Error Msg_bank_failed ?s1"
      by (simp add: doAnswer_def Let_def)
    then show ?thesis by (simp only: grows_log)
  next
    case False
    then have "doAnswer s =
       (case getPageContextAndAnswers ?s1 of
          (Ctx_null, s2) \<Rightarrow> s2
        | (Ctx_answered, s2) \<Rightarrow> s2
        | (Ctx answers mainTaskContent activeSubTaskName, s2) \<Rightarrow>
            (case apply_answers answers s2 of
               (answered, s3) \<Rightarrow>
                 if answered then
                   (log_js Success (Msg_applied activeSubTaskName) s3)
                     \<lparr>lastAnsweredSubTask := dedup_key mainTaskContent activeSubTaskName\<rparr>
                 else s3))"
      by (simp add: doAnswer_def Let_def)
    then show ?thesis by (simp only: grows_answer_body)
  qed
  with 1 show ?thesis by (rule grows_trans)
qed

lemma grows_set_video: "grows s (set_video v s)"
  by (simp add: grows_def set_video_def)

lemma grows_finish: "grows s (onCanPlay_finish rj s)"
  using grows_trans[OF grows_log grows_log] by (cases rj) (simp_all add: onCanPlay_finish_def grows_log)

lemma grows_video: "handleVideoTask s = Some (r, s') \<Longrightarrow> grows s s'"
proof -
  assume h: "handleVideoTask s = Some (r, s')"
  let ?s1 = "log_js Info Msg_video s"
  have a: "grows s (awaited t (set_video x ?s1))" for t x
    using grows_trans[OF grows_log grows_trans[OF grows_set_video grows_awaited]] .
  have b: "grows s (onCanPlay_finish rj (awaited t (set_video x ?s1)))" for t x rj
    using grows_trans[OF a grows_finish] .
  show ?thesis
    using h a b
    by (auto simp: handleVideoTask_def Let_def grows_refl split: option.splits if_splits)
qed

lemma grows_voc_loop: "grows s (snd (voc_loop n s))"
  using voc_loop_trace[of n s] by (auto simp: grows_def)

lemma grows_vocabulary: "grows s (snd (handleVocabularyTask s))"
  using grows_trans[OF grows_log grows_voc_loop]
  by (simp add: handleVocabularyTask_def Let_def grows_log)

lemma grows_skip: "grows s (snd (handleSkippableTask n s))"
  using grows_trans[OF grows_log grows_sleep] by (simp add: handleSkippableTask_def)

lemma grows_executeMethod: "executeMethod m n s = Some s' \<Longrightarrow> grows s s'"
proof -
  assume h: "executeMethod m n s = Some s'"
  let ?s1 = "emit (Call (P_executeMethod m n)) s"
  have "grows ?s1 s'"
  proof (cases m)
    case Video
    then show ?thesis using h grows_video[of ?s1] by (auto simp: executeMethod_def Let_def)
  next
    case Skip
    then show ?thesis using h grows_skip[of ?s1 n] by (auto simp: executeMethod_def Let_def)
  next
    case Vocabulary
    then show ?thesis using h grows_vocabulary[of ?s1] by (auto simp: executeMethod_def Let_def)
  next
    case Quiz
    then show ?thesis using h grows_doAnswer[of ?s1] by (auto simp: executeMethod_def Let_def)
  next
    case (Other_method x)
    then show ?thesis using h grows_log[of ?s1] by (auto simp: executeMethod_def Let_def)
  qed
  with grows_emit show ?thesis by (rule grows_trans)
qed

lemma grows_submit_loop: "grows s (snd (submit_loop k sels s))"
proof (induction sels arbitrary: k)
  case Nil
  show ?case by (simp add: grows_refl)
next
  case (Cons sel sels)
  let ?s1 = "sleep 1500 1500 (robustClick (Submit k) (log_js Info Msg_submit s))"
  have 1: "grows s ?s1"
    using grows_trans[OF grows_log grows_trans[OF grows_click grows_sleep]] .
  have 2: "grows s (sleep 1500 1500 (robustClick Confirm (log_js Info Msg_confirm ?s1)))"
    using grows_trans[OF 1 grows_trans[OF grows_log grows_trans[OF grows_click grows_sleep]]] .
  show ?case
    using Cons.IH[of "Suc k"] 1 2 by (auto simp: Let_def split: option.splits)
qed

lemma grows_complete: "grows s (snd (completeAndNavigateTaskInternal s))"
proof -
  let ?s1 = "sleep 1000 1000 (emit (Call P_completeAndNavigateTaskInternal) s)"
  have 1: "grows s ?s1" using grows_trans[OF grows_emit grows_sleep] .
  have 2: "grows ?s1 (sleep 2000 2000
             (robustClick Next_question (log_js Info Msg_next_question ?s1)))"
    using grows_trans[OF grows_log grows_trans[OF grows_click grows_sleep]] .
  show ?thesis
    using grows_trans[OF 1 grows_submit_loop] grows_trans[OF grows_trans[OF 1 2] grows_submit_loop]
    by (simp add: completeAndNavigateTaskInternal_def Let_def)
qed

lemma grows_navigate: "grows s (navigateToNextMainTask s)"
  using navigate_trace[of s] by (auto simp: grows_def)

lemma grows_children: "process_children tabs cs s = Some (b, s') \<Longrightarrow> grows s s'"
proof (induction cs arbitrary: s)
  case Nil
  then show ?case by (simp add: grows_refl)
next
  case (Cons c cs)
  show ?case
  proof (cases "isAutomationRunning s")
    case False
    then show ?thesis using Cons.prems by (simp add: grows_refl)
  next
    case True
    show ?thesis
    proof (cases "find_tab 0 (c_name c) tabs")
      case None
      then have "process_children tabs cs (log_js Warn (Msg_tab_missing (c_name c)) s)
                   = Some (b, s')"
        using Cons.prems True by simp
      from Cons.IH[OF this] show ?thesis using grows_log grows_trans by blast
    next
      case (Some k)
      let ?s0 = "sleep 2500 2500 (robustClick (Tab k)
                   (log_js Info (Msg_subtask (c_name c) (c_method c)) s))"
      have 0: "grows s ?s0"
        using grows_trans[OF grows_log grows_trans[OF grows_click grows_sleep]] .
      obtain s1 where e: "executeMethod (c_method c) (c_name c) ?s0 = Some s1"
        using Cons.prems True Some by (auto split: option.splits)
      let ?s2 = "if c_needsSubmit c
                 then sleep 1500 1500 (snd (completeAndNavigateTaskInternal s1)) else s1"
      have r: "process_children tabs cs ?s2 = Some (b, s')"
        using Cons.prems True Some e by simp
      have 1: "grows ?s0 s1" using e by (rule grows_executeMethod)
      have 2: "grows s1 ?s2"
        using grows_trans[OF grows_complete grows_sleep] by (simp add: grows_refl)
      from Cons.IH[OF r] 0 1 2 show ?thesis using grows_trans by blast
    qed
  qed
qed

text \<open>
  The \<open>try\<close> block after its first wait: it is left by the \<open>throw\<close> at once, or it goes on
  with a log line.
\<close>

lemma main_try_after_wait:
  assumes "main_try s = Some (c, s')"
  shows "(c = Thrown \<and> s' = sleep 3000 3000 s)
       \<or> (c = Normal \<and> (\<exists>l m evs. trace s' = trace (sleep 3000 3000 s) @ Log l m # evs))"
proof -
  let ?s1 = "sleep 3000 3000 s"
  let ?n = "currentMainTaskName_of (page ?s1)"
  have logged: "grows (log_js l m x) y \<Longrightarrow> trace x = trace ?s1 \<Longrightarrow>
        \<exists>l m evs. trace y = trace ?s1 @ Log l m # evs" for l m x y
    by (auto simp: grows_def log_js_def emit_def)
  show ?thesis
  proof (cases "truthy ?n")
    case False
    then show ?thesis using assms by (auto simp: main_try_def Let_def)
  next
    case readable: True
    let ?name = "the ?n"
    show ?thesis
    proof (cases "?name = GM_getValue (gm_lastProcessedTaskName ?s1)
                  \<and> href (page ?s1) = GM_getValue (gm_lastUrl ?s1)")
      case True
      then have "c = Normal"
          "s' = navigateToNextMainTask (log_js Warn (Msg_stuck ?name) ?s1)"
        using assms readable by (auto simp: main_try_def Let_def)
      then show ?thesis
        using logged[OF grows_navigate[of "log_js Warn (Msg_stuck ?name) ?s1"]] by simp
    next
      case moving: False
      let ?s2 = "if ?name \<noteq> GM_getValue (gm_lastProcessedTaskName ?s1)
                 then ?s1\<lparr>lastAnsweredSubTask := []\<rparr> else ?s1"
      let ?s3 = "log_js Success (Msg_start ?name) ?s2"
      have t2: "trace ?s2 = trace ?s1" by simp
      show ?thesis
      proof (cases "find (\<lambda>t. includes_str ?name (t_id t)) UNIT_STRUCTURE")
        case None
        then have "c = Normal"
            "s' = navigateToNextMainTask (log_js Warn (Msg_unmapped ?name) ?s3)"
          using assms readable moving by (auto simp: main_try_def Let_def)
        then have "grows ?s3 s'"
          using grows_trans[OF grows_log grows_navigate] by simp
        then show ?thesis using logged[OF _ t2] \<open>c = Normal\<close> by blast
      next
        case (Some taskData)
        let ?r = "case t_kind taskData of
                    Standalone m needsSubmit \<Rightarrow>
                      (case executeMethod m (t_name taskData) ?s3 of
                         None \<Rightarrow> None
                       | Some s4 \<Rightarrow>
                           Some (True,
                             if needsSubmit then snd (completeAndNavigateTaskInternal s4)
                             else s4))
                  | Composite children \<Rightarrow>
                      process_children (header_tabs (page ?s3)) children ?s3"
        have body: "main_try s =
            (case ?r of
               None \<Rightarrow> None
             | Some (False, s5) \<Rightarrow> Some (Normal, s5)
             | Some (True, s5) \<Rightarrow>
                 (let s6 = snd (completeAndNavigateTaskInternal
                            (log_js Info (Msg_all_parts ?name) s5));
                      s7 = s6\<lparr>gm_lastProcessedTaskName := Some ?name,
                              gm_lastUrl := Some (href (page s6))\<rparr>
                  in Some (Normal, navigateToNextMainTask s7)))"
          using readable moving Some by (simp add: main_try_def Let_def)
        obtain b s5 where r: "?r = Some (b, s5)"
          using assms body by (cases ?r) auto
        have g5: "grows ?s3 s5"
        proof (cases "t_kind taskData")
          case (Standalone m needsSubmit)
          then obtain s4 where e: "executeMethod m (t_name taskData) ?s3 = Some s4"
              and s5: "s5 = (if needsSubmit then snd (completeAndNavigateTaskInternal s4) else s4)"
            using r by (auto split: option.splits)
          have "grows ?s3 s4" using e by (rule grows_executeMethod)
          moreover have "grows s4 s5" using s5 grows_complete by (simp add: grows_refl)
          ultimately show ?thesis by (rule grows_trans)
        next
          case (Composite children)
          then show ?thesis using r grows_children by simp
        qed
        have fin: "c = Normal \<and> grows s5 s'"
        proof (cases b)
          case False
          then show ?thesis using assms body r by (simp add: grows_refl)
        next
          case True
          let ?s6 = "snd (completeAndNavigateTaskInternal (log_js Info (Msg_all_parts ?name) s5))"
          let ?s7 = "?s6\<lparr>gm_lastProcessedTaskName := Some ?name,
                          gm_lastUrl := Some (href (page ?s6))\<rparr>"
          have e: "c = Normal" "s' = navigateToNextMainTask ?s7"
            using assms body r True by (simp_all add: Let_def)
          have "grows s5 ?s6" using grows_trans[OF grows_log grows_complete] .
          moreover have "grows ?s6 ?s7" by (simp add: grows_def)
          ultimately have "grows s5 s'"
            using e(2) grows_navigate[of ?s7] grows_trans by blast
          with e(1) show ?thesis by simp
        qed
        have "grows ?s3 s'" using g5 fin grows_trans by blast
        then show ?thesis using logged[OF _ t2] fin by blast
      qed
    qed
  qed
qed

text \<open>
  Claim C5.  With \<open>isProcessing\<close> set, or with the automation off, \<open>main\<close> returns at once
  and the state is as it was.  Otherwise \<open>main\<close> is the \<open>try\<close> block run from the state in
  which \<open>isProcessing\<close> is set, followed by the \<open>catch\<close> block when the error was thrown and
  by the \<open>finally\<close> block in every case: whenever \<open>main\<close> returns, by the end of the block,
  by a \<open>return\<close> within it or through the thrown error, \<open>isProcessing\<close> is cleared, and the
  trace shows the first wait of the invocation and a log line after it.  That first wait is
  spent with \<open>isProcessing\<close> set: when the page moves to another address meanwhile, the
  observer logs it and does not schedule \<open>main\<close> again.
\<close>

theorem reentrancy_guard:
  "(isProcessing s \<or> \<not> isAutomationRunning s \<longrightarrow> main s = Some s)
   \<and> (\<not> isProcessing s \<and> isAutomationRunning s \<longrightarrow>
        main s =
          (case main_try (s\<lparr>isProcessing := True\<rparr>) of
             None \<Rightarrow> None
           | Some (Thrown, s1) \<Rightarrow>
               Some ((toggleAutomation (log_js Error Msg_fatal s1))\<lparr>isProcessing := False\<rparr>)
           | Some (Normal, s1) \<Rightarrow> Some (s1\<lparr>isProcessing := False\<rparr>))
        \<and> (\<forall>s'. main s = Some s' \<longrightarrow>
              \<not> isProcessing s'
              \<and> (\<exists>l m evs. trace s' = trace (after_wait s) @ Log l m # evs)))
   \<and> (\<exists>evs. trace (after_wait s) = trace s @ Sleep 3000 3000 # evs
          \<and> list_all is_env_event evs)
   \<and> (env s = Env_render p # rest \<and> urlObserver s = Some u \<and> href p \<noteq> u \<longrightarrow>
        trace (after_wait s) = trace s @ [Sleep 3000 3000, Log Info Msg_page_jump]
        \<and> page (after_wait s) = p \<and> isProcessing (after_wait s))"
proof -
  have closed: "isProcessing s \<or> \<not> isAutomationRunning s \<longrightarrow> main s = Some s"
    by (simp add: main_def)
  have eq: "\<not> isProcessing s \<and> isAutomationRunning s \<longrightarrow>
        main s =
          (case main_try (s\<lparr>isProcessing := True\<rparr>) of
             None \<Rightarrow> None
           | Some (Thrown, s1) \<Rightarrow>
               Some ((toggleAutomation (log_js Error Msg_fatal s1))\<lparr>isProcessing := False\<rparr>)
           | Some (Normal, s1) \<Rightarrow> Some (s1\<lparr>isProcessing := False\<rparr>))"
    by (simp add: main_def)
  have ret: "\<not> isProcessing s'
              \<and> (\<exists>l m evs. trace s' = trace (after_wait s) @ Log l m # evs)"
    if op: "\<not> isProcessing s \<and> isAutomationRunning s" and m: "main s = Some s'" for s'
  proof -
    obtain c s1 where t: "main_try (s\<lparr>isProcessing := True\<rparr>) = Some (c, s1)"
      using op m by (auto simp: main_def split: option.splits)
    show ?thesis
    proof (cases c)
      case Thrown
      then have s1: "s1 = after_wait s"
        using main_try_after_wait[OF t] by (simp add: after_wait_def)
      have s': "s' = (toggleAutomation (log_js Error Msg_fatal s1))\<lparr>isProcessing := False\<rparr>"
        using op m t Thrown by (simp add: main_def)
      obtain evs where "trace (toggleAutomation (log_js Error Msg_fatal s1))
                          = trace (log_js Error Msg_fatal s1) @ evs"
        using toggle_trace by blast
      then have "trace s' = trace (after_wait s) @ Log Error Msg_fatal # evs"
        using s' s1 by (simp add: trace_log)
      then show ?thesis using s' by auto
    next
      case Normal
      then obtain l m' evs where "trace s1 = trace (after_wait s) @ Log l m' # evs"
        using main_try_after_wait[OF t] by (auto simp: after_wait_def)
      moreover have "s' = s1\<lparr>isProcessing := False\<rparr>"
        using op m t Normal by (simp add: main_def)
      ultimately show ?thesis by auto
    qed
  qed
  have wait: "\<exists>evs. trace (after_wait s) = trace s @ Sleep 3000 3000 # evs
          \<and> list_all is_env_event evs"
    using sleep_trace[of 3000 3000 "s\<lparr>isProcessing := True\<rparr>"] by (simp add: after_wait_def)
  have held: "env s = Env_render p # rest \<and> urlObserver s = Some u \<and> href p \<noteq> u \<longrightarrow>
        trace (after_wait s) = trace s @ [Sleep 3000 3000, Log Info Msg_page_jump]
        \<and> page (after_wait s) = p \<and> isProcessing (after_wait s)"
    by (simp add: after_wait_def sleep_def env_step_def emit_def observerCallback_def
          log_js_def Let_def)
  show ?thesis using closed eq ret wait held by blast
qed

text \<open>
  Four runs: the guard closed by either flag; the label unreadable (the error is thrown);
  and a page that moves to another address during the first wait, which the observer logs
  without scheduling \<open>main\<close> again, after which the invocation goes on.
\<close>

theorem reentrancy_guard_witness:
  "isProcessing (started_state\<lparr>isProcessing := True\<rparr>)
   \<and> main (started_state\<lparr>isProcessing := True\<rparr>) = Some (started_state\<lparr>isProcessing := True\<rparr>)
   \<and> \<not> isAutomationRunning (started_state\<lparr>isAutomationRunning := False\<rparr>)
   \<and> main (started_state\<lparr>isAutomationRunning := False\<rparr>)
       = Some (started_state\<lparr>isAutomationRunning := False\<rparr>)
   \<and> \<not> isProcessing untitled_state \<and> isAutomationRunning untitled_state
   \<and> main untitled_state = Some (the (main untitled_state))
   \<and> \<not> isProcessing (the (main untitled_state))
   \<and> trace (the (main untitled_state))
       = [Sleep 3000 3000, Log Error Msg_fatal, Log Warn Msg_paused,
          Log Warn Msg_observer_stopped]
   \<and> \<not> isProcessing moving_state \<and> isAutomationRunning moving_state
   \<and> env moving_state
       = [Env_render ((page stalled_state)\<lparr>href := ''https://ucontent.unipus.cn/course/u2''\<rparr>)]
   \<and> urlObserver moving_state = Some (href blank_page)
   \<and> trace (after_wait moving_state) = [Sleep 3000 3000, Log Info Msg_page_jump]
   \<and> isProcessing (after_wait moving_state)
   \<and> main moving_state = Some (the (main moving_state))
   \<and> \<not> isProcessing (the (main moving_state))
   \<and> (\<exists>l m evs. trace (the (main moving_state))
                    = trace (after_wait moving_state) @ Log l m # evs)
   \<and> Set_timeout_main 1500 \<notin> set (trace (the (main moving_state)))"
proof -
  let ?p = "(page stalled_state)\<lparr>href := ''https://ucontent.unipus.cn/course/u2''\<rparr>"
  have a: "isProcessing (started_state\<lparr>isProcessing := True\<rparr>)" by simp
  have b: "\<not> isAutomationRunning (started_state\<lparr>isAutomationRunning := False\<rparr>)" by simp
  have e: "\<not> isProcessing untitled_state" "isAutomationRunning untitled_state" by code_simp+
  have f: "main untitled_state = Some (the (main untitled_state))" by code_simp
  have ft: "trace (the (main untitled_state))
       = [Sleep 3000 3000, Log Error Msg_fatal, Log Warn Msg_paused,
          Log Warn Msg_observer_stopped]" by code_simp
  have g: "\<not> isProcessing moving_state" "isAutomationRunning moving_state" by code_simp+
  have h: "env moving_state = Env_render ?p # []" by code_simp
  have o: "urlObserver moving_state = Some (href blank_page)" by code_simp
  have d: "href ?p \<noteq> href blank_page" by code_simp
  have t0: "trace moving_state = []" by code_simp
  have k: "main moving_state = Some (the (main moving_state))" by code_simp
  have n: "Set_timeout_main 1500 \<notin> set (trace (the (main moving_state)))" by code_simp
  note c1 = reentrancy_guard [of "started_state\<lparr>isProcessing := True\<rparr>" ?p "[]" "href blank_page"]
  note c2 = reentrancy_guard [of "started_state\<lparr>isAutomationRunning := False\<rparr>" ?p "[]"
              "href blank_page"]
  note c3 = reentrancy_guard [of untitled_state ?p "[]" "href blank_page"]
  note c4 = reentrancy_guard [of moving_state ?p "[]" "href blank_page"]
  have 1: "main (started_state\<lparr>isProcessing := True\<rparr>) = Some (started_state\<lparr>isProcessing := True\<rparr>)"
    using c1 a by blast
  have 2: "main (started_state\<lparr>isAutomationRunning := False\<rparr>)
             = Some (started_state\<lparr>isAutomationRunning := False\<rparr>)"
    using c2 b by blast
  have 3: "\<not> isProcessing (the (main untitled_state))"
    using c3 e f by blast
  have 4: "trace (after_wait moving_state) = [Sleep 3000 3000, Log Info Msg_page_jump]"
      "isProcessing (after_wait moving_state)"
    using c4 h o d t0 by simp_all
  have 5: "\<not> isProcessing (the (main moving_state))"
      "\<exists>l m evs. trace (the (main moving_state))
                    = trace (after_wait moving_state) @ Log l m # evs"
    using c4 g k by blast+
  show ?thesis
    using a b e f ft g h o 1 2 3 4 5 k n by simp
qed

end
